theory Spec2Isabelle
  imports Main "HOL-Library.Sublist" "HOL-Library.Multiset"
begin

section \<open>JavaScript strings\<close>

text \<open>
  \<^verbatim>\<open>s.split(sep)\<close> for a one-character separator: the pieces between the occurrences of
  the separator, so the empty string gives one empty piece.
\<close>

fun js_split :: "char \<Rightarrow> string \<Rightarrow> string list" where
  "js_split sep [] = [[]]"
| "js_split sep (c # cs) =
     (if c = sep then [] # js_split sep cs
      else (case js_split sep cs of
              [] \<Rightarrow> [[c]]
            | x # xs \<Rightarrow> (c # x) # xs))"

text \<open>\<^verbatim>\<open>pieces.join(glue)\<close>.\<close>

fun js_join :: "string \<Rightarrow> string list \<Rightarrow> string" where
  "js_join glue [] = []"
| "js_join glue [x] = x"
| "js_join glue (x # y # ys) = x @ glue @ js_join glue (y # ys)"

text \<open>
  \<^verbatim>\<open>s.toLowerCase()\<close> on the letters A to Z. The walker compares the result with
  \<^verbatim>\<open>".pdf"\<close>, and no character outside A to Z lowercases to one of p, d, f.
\<close>

definition lower_char :: "char \<Rightarrow> char" where
  "lower_char c =
     (let n = (of_char c :: nat)
      in if 65 \<le> n \<and> n \<le> 90 then char_of (n + 32) else c)"

definition toLowerCase :: "string \<Rightarrow> string" where
  "toLowerCase s = map lower_char s"

section \<open>Node's path module\<close>

text \<open>
  The program reaches the operating system's path conventions through
  \<^verbatim>\<open>path.sep\<close>, \<^verbatim>\<open>path.resolve\<close>, \<^verbatim>\<open>path.relative\<close>, \<^verbatim>\<open>path.join\<close>
  and \<^verbatim>\<open>path.extname\<close>. They are library functions, so the program is modelled
  over a record of them; \<open>posix\<close> below is the instance for POSIX systems, with the
  working directory of the process as its parameter.
\<close>

record platform =
  sep :: char
  resolve :: "string \<Rightarrow> string"
  relative :: "string \<Rightarrow> string \<Rightarrow> string"
  join :: "string \<Rightarrow> string \<Rightarrow> string"
  extname :: "string \<Rightarrow> string"

subsection \<open>The POSIX instance\<close>

text \<open>
  One step of \<^verbatim>\<open>normalizeString\<close>, on the segments kept so far: empty segments and
  \<^verbatim>\<open>.\<close> are dropped, \<^verbatim>\<open>..\<close> removes the last kept segment unless there is none or it
  is \<^verbatim>\<open>..\<close> itself, in which case it is kept only if the path may climb above its start.
\<close>

definition norm_step :: "bool \<Rightarrow> string list \<Rightarrow> string \<Rightarrow> string list" where
  "norm_step allowAboveRoot res seg =
     (if seg = [] \<or> seg = ''.'' then res
      else if seg = ''..'' then
        (if res \<noteq> [] \<and> last res \<noteq> ''..'' then butlast res
         else if allowAboveRoot then res @ [''..'']
         else res)
      else res @ [seg])"

definition norm_segments :: "bool \<Rightarrow> string \<Rightarrow> string list" where
  "norm_segments allowAboveRoot p = foldl (norm_step allowAboveRoot) [] (js_split CHR ''/'' p)"

definition normalizeString :: "string \<Rightarrow> bool \<Rightarrow> string" where
  "normalizeString p allowAboveRoot = js_join ''/'' (norm_segments allowAboveRoot p)"

text \<open>
  The loop of \<^verbatim>\<open>path.resolve\<close>: the arguments from the last to the first, then the
  working directory, are prepended until the path built is absolute; empty ones are
  skipped.
\<close>

fun resolve_loop :: "string list \<Rightarrow> string \<Rightarrow> bool \<Rightarrow> string \<times> bool" where
  "resolve_loop [] resolvedPath resolvedAbsolute = (resolvedPath, resolvedAbsolute)"
| "resolve_loop (p # ps) resolvedPath resolvedAbsolute =
     (if resolvedAbsolute then (resolvedPath, resolvedAbsolute)
      else if p = [] then resolve_loop ps resolvedPath resolvedAbsolute
      else resolve_loop ps (p @ ''/'' @ resolvedPath) (hd p = CHR ''/''))"

definition posix_resolve :: "string \<Rightarrow> string list \<Rightarrow> string" where
  "posix_resolve cwd args =
     (case resolve_loop (rev args @ [cwd]) [] False of
        (resolvedPath, resolvedAbsolute) \<Rightarrow>
          (let n = normalizeString resolvedPath (\<not> resolvedAbsolute)
           in if resolvedAbsolute then ''/'' @ n
              else if n \<noteq> [] then n else ''.''))"

text \<open>The non-empty segments of a resolved path.\<close>

definition path_segments :: "string \<Rightarrow> string list" where
  "path_segments p = filter (\<lambda>s. s \<noteq> []) (js_split CHR ''/'' p)"

text \<open>
  \<^verbatim>\<open>path.relative(from, to)\<close>, on segments: both paths are resolved, their common
  leading segments are dropped, and the result is one \<^verbatim>\<open>..\<close> for each segment left of
  \<open>from\<close>, followed by the segments left of \<open>to\<close>.
\<close>

fun drop_common :: "string list \<Rightarrow> string list \<Rightarrow> string list \<times> string list" where
  "drop_common (x # xs) (y # ys) = (if x = y then drop_common xs ys else (x # xs, y # ys))"
| "drop_common xs ys = (xs, ys)"

definition relative_segments :: "string list \<Rightarrow> string list \<Rightarrow> string list" where
  "relative_segments fs ts =
     (case drop_common fs ts of (fs', ts') \<Rightarrow> replicate (length fs') ''..'' @ ts')"

definition posix_relative :: "string \<Rightarrow> string \<Rightarrow> string \<Rightarrow> string" where
  "posix_relative cwd from to =
     (if from = to then []
      else (let from' = posix_resolve cwd [from]; to' = posix_resolve cwd [to]
            in if from' = to' then []
               else js_join ''/'' (relative_segments (path_segments from') (path_segments to'))))"

text \<open>
  \<^verbatim>\<open>path.normalize\<close> and \<^verbatim>\<open>path.join\<close> of two arguments: the non-empty arguments are
  glued with a slash and the result is normalised; a trailing slash is kept.
\<close>

definition posix_normalize :: "string \<Rightarrow> string" where
  "posix_normalize p =
     (if p = [] then ''.''
      else (let isAbsolute = (hd p = CHR ''/'');
                trailingSeparator = (last p = CHR ''/'');
                n = normalizeString p (\<not> isAbsolute)
            in if n = [] then
                 (if isAbsolute then ''/'' else if trailingSeparator then ''./'' else ''.'')
               else (if isAbsolute then ''/'' else []) @ n
                      @ (if trailingSeparator then ''/'' else [])))"

definition posix_join :: "string \<Rightarrow> string \<Rightarrow> string" where
  "posix_join a b =
     (let joined = js_join ''/'' (filter (\<lambda>s. s \<noteq> []) [a, b])
      in if joined = [] then ''.'' else posix_normalize joined)"

text \<open>
  \<^verbatim>\<open>path.extname\<close>: in the last component of the path (trailing slashes apart), the
  text from the last dot on; empty when there is no dot, when the only dot is the first
  character of the component, and when the component is \<^verbatim>\<open>..\<close>.
\<close>

definition last_component :: "string \<Rightarrow> string" where
  "last_component p =
     rev (takeWhile (\<lambda>c. c \<noteq> CHR ''/'') (dropWhile (\<lambda>c. c = CHR ''/'') (rev p)))"

definition posix_extname :: "string \<Rightarrow> string" where
  "posix_extname p =
     (let b = last_component p;
          ext = rev (takeWhile (\<lambda>c. c \<noteq> CHR ''.'') (rev b))
      in if CHR ''.'' \<notin> set b then []
         else if length ext + 1 = length b then []
         else if b = ''..'' then []
         else CHR ''.'' # ext)"

definition posix :: "string \<Rightarrow> platform" where
  "posix cwd =
     \<lparr> sep = CHR ''/'',
       resolve = (\<lambda>p. posix_resolve cwd [p]),
       relative = posix_relative cwd,
       join = posix_join,
       extname = posix_extname \<rparr>"

section \<open>Key mapper\<close>

text \<open>
  An argument of a JavaScript function is any value; the path functions throw a
  \<^verbatim>\<open>TypeError\<close> on one that is not a string, and that is the only exception
  \<^verbatim>\<open>localPathToKey\<close> can raise.
\<close>

datatype js_value = Str string | NotAString

datatype error = TypeError | ReaddirError string

text \<open>
  \<^verbatim>\<open>
  function localPathToKey(localPath) {
    const rel = path.relative(path.resolve(LOCAL_DIR), path.resolve(localPath));
    return rel.split(path.sep).join("/");
  }
  \<close>
\<close>

definition localPathToKey :: "platform \<Rightarrow> string \<Rightarrow> js_value \<Rightarrow> error + string" where
  "localPathToKey pf LOCAL_DIR localPath =
     (case localPath of
        NotAString \<Rightarrow> Inl TypeError
      | Str p \<Rightarrow>
          (let rel = relative pf (resolve pf LOCAL_DIR) (resolve pf p)
           in Inr (js_join ''/'' (js_split (sep pf) rel))))"

section \<open>Configuration\<close>

text \<open>
  The settings read from the environment; a missing variable is the empty string. The
  three numbers are results of \<^verbatim>\<open>parseInt\<close>, so any integer can occur; a text that
  is no number gives \<^verbatim>\<open>NaN\<close>, with which the program behaves as with 0.
\<close>

record config =
  R2_ENDPOINT :: string
  BUCKET :: string
  ACCESS_KEY :: string
  SECRET_KEY :: string
  LOCAL_DIR :: string
  CONCURRENCY :: int
  RETRY_LIMIT :: int
  DEBOUNCE_MS :: int

section \<open>Retrying operation executor\<close>

text \<open>
  What an execution does is recorded as a list of events: the calls to the file system,
  to the remote store and to the timer, and the log lines. \<open>SetTimeout ms\<close> is the call
  \<^verbatim>\<open>setTimeout(res, ms)\<close> whose expiry the executor awaits before the next attempt.
\<close>

datatype event =
    ReadFile string
  | SendPut string string string string
  | SendDelete string string
  | LogUploaded string
  | LogDeleted string
  | LogUploadError string nat
  | LogDeleteError string nat
  | LogRetrying string nat
  | SetTimeout nat
  | LogFailed string
  | LogDeleteFailed string

text \<open>
  The collaborators, as the executor sees them during one chain of attempts:
  \<open>readFile\<close> gives the bytes read at an attempt (\<open>None\<close> when the read is rejected),
  \<open>send_ok\<close> tells whether the remote call of an attempt resolves, and \<open>mime_lookup\<close>
  is \<^verbatim>\<open>mime.lookup\<close> (\<open>None\<close> for its \<^verbatim>\<open>false\<close>).
\<close>

record world =
  readFile :: "nat \<Rightarrow> string \<Rightarrow> string option"
  send_ok :: "nat \<Rightarrow> string \<Rightarrow> bool"
  mime_lookup :: "string \<Rightarrow> string option"

text \<open>
  The \<^verbatim>\<open>try\<close> block of \<^verbatim>\<open>uploadFile\<close>: its events, and whether it completed without
  an exception.
\<close>

definition upload_try :: "config \<Rightarrow> world \<Rightarrow> string \<Rightarrow> string \<Rightarrow> nat \<Rightarrow> event list \<times> bool" where
  "upload_try cfg w localPath key attempt =
     (case readFile w attempt localPath of
        None \<Rightarrow> ([ReadFile localPath], False)
      | Some data \<Rightarrow>
          (let contentType =
                 (case mime_lookup w localPath of
                    Some t \<Rightarrow> t
                  | None \<Rightarrow> ''application/octet-stream'');
               cmd = SendPut (BUCKET cfg) key data contentType
           in if send_ok w attempt key
              then ([ReadFile localPath, cmd, LogUploaded key], True)
              else ([ReadFile localPath, cmd], False)))"

text \<open>The \<^verbatim>\<open>try\<close> block of \<^verbatim>\<open>deleteKey\<close>.\<close>

definition delete_try :: "config \<Rightarrow> world \<Rightarrow> string \<Rightarrow> nat \<Rightarrow> event list \<times> bool" where
  "delete_try cfg w key attempt =
     (let cmd = SendDelete (BUCKET cfg) key
      in if send_ok w attempt key
         then ([cmd, LogDeleted key], True)
         else ([cmd], False))"

text \<open>
  \<^verbatim>\<open>uploadFile(localPath, attempt = 1)\<close>. The key is computed before the \<^verbatim>\<open>try\<close>, so an
  exception of \<^verbatim>\<open>localPathToKey\<close> would leave the function; everything after it is
  caught, and the handler itself raises nothing (what the collaborators reject with is an
  \<^verbatim>\<open>Error\<close> object, of which it reads the message). The result is the events of the
  whole chain of attempts, and \<open>Inr ()\<close> when the promise resolves, \<open>Inl e\<close> when it
  is rejected with \<open>e\<close>.
\<close>

function uploadFile ::
  "platform \<Rightarrow> config \<Rightarrow> world \<Rightarrow> string \<Rightarrow> nat \<Rightarrow> event list \<times> (error + unit)" where
  "uploadFile pf cfg w localPath attempt =
     (case localPathToKey pf (LOCAL_DIR cfg) (Str localPath) of
        Inl e \<Rightarrow> ([], Inl e)
      | Inr key \<Rightarrow>
          (case upload_try cfg w localPath key attempt of
             (evs, ok) \<Rightarrow>
               if ok then (evs, Inr ())
               else if int attempt < RETRY_LIMIT cfg then
                 (let backoff = 200 * 2 ^ attempt
                  in case uploadFile pf cfg w localPath (attempt + 1) of
                       (evs', r) \<Rightarrow>
                         (evs @ [LogUploadError key attempt, LogRetrying key backoff,
                                 SetTimeout backoff] @ evs', r))
               else (evs @ [LogUploadError key attempt, LogFailed key], Inr ())))"
  by pat_completeness auto
termination
  by (relation "measure (\<lambda>(pf, cfg, w, localPath, attempt). nat (RETRY_LIMIT cfg - int attempt))")
     auto

declare uploadFile.simps [simp del]

text \<open>\<^verbatim>\<open>deleteKey(localPath, attempt = 1)\<close>.\<close>

function deleteKey ::
  "platform \<Rightarrow> config \<Rightarrow> world \<Rightarrow> string \<Rightarrow> nat \<Rightarrow> event list \<times> (error + unit)" where
  "deleteKey pf cfg w localPath attempt =
     (case localPathToKey pf (LOCAL_DIR cfg) (Str localPath) of
        Inl e \<Rightarrow> ([], Inl e)
      | Inr key \<Rightarrow>
          (case delete_try cfg w key attempt of
             (evs, ok) \<Rightarrow>
               if ok then (evs, Inr ())
               else if int attempt < RETRY_LIMIT cfg then
                 (let backoff = 200 * 2 ^ attempt
                  in case deleteKey pf cfg w localPath (attempt + 1) of
                       (evs', r) \<Rightarrow>
                         (evs @ [LogDeleteError key attempt, SetTimeout backoff] @ evs', r))
               else (evs @ [LogDeleteError key attempt, LogDeleteFailed key], Inr ())))"
  by pat_completeness auto
termination
  by (relation "measure (\<lambda>(pf, cfg, w, localPath, attempt). nat (RETRY_LIMIT cfg - int attempt))")
     auto

declare deleteKey.simps [simp del]

text \<open>Observations on a list of events.\<close>

definition read_attempts :: "event list \<Rightarrow> nat" where
  "read_attempts evs = length (filter (\<lambda>e. case e of ReadFile _ \<Rightarrow> True | _ \<Rightarrow> False) evs)"

definition delete_attempts :: "event list \<Rightarrow> nat" where
  "delete_attempts evs =
     length (filter (\<lambda>e. case e of SendDelete _ _ \<Rightarrow> True | _ \<Rightarrow> False) evs)"

definition failed_attempts :: "event list \<Rightarrow> nat list" where
  "failed_attempts evs =
     concat (map (\<lambda>e. case e of LogUploadError _ n \<Rightarrow> [n]
                              | LogDeleteError _ n \<Rightarrow> [n]
                              | _ \<Rightarrow> []) evs)"

definition waits :: "event list \<Rightarrow> nat list" where
  "waits evs = concat (map (\<lambda>e. case e of SetTimeout ms \<Rightarrow> [ms] | _ \<Rightarrow> []) evs)"

section \<open>Reconciliation walker\<close>

text \<open>
  A directory tree as \<^verbatim>\<open>readdir(dir, { withFileTypes: true })\<close> shows it: an entry is
  a regular file, a directory, or something else (neither \<^verbatim>\<open>isDirectory()\<close> nor
  \<^verbatim>\<open>isFile()\<close>); reading a directory gives its entries or fails.
\<close>

datatype dirent = RegFile string | Directory string listing | OtherEntry string
and listing = Unreadable | Entries "dirent list"

text \<open>
  \<^verbatim>\<open>walk(dir)\<close> inside \<^verbatim>\<open>initialSync\<close>, with the array \<^verbatim>\<open>files\<close> it pushes to passed
  along. There is no \<^verbatim>\<open>try\<close> in it: a rejected \<^verbatim>\<open>readdir\<close> rejects every enclosing
  call.
\<close>

fun walk :: "platform \<Rightarrow> string \<Rightarrow> listing \<Rightarrow> string list \<Rightarrow> error + string list"
and walk_entries :: "platform \<Rightarrow> string \<Rightarrow> dirent list \<Rightarrow> string list \<Rightarrow> error + string list"
where
  "walk pf dir Unreadable files = Inl (ReaddirError dir)"
| "walk pf dir (Entries entries) files = walk_entries pf dir entries files"
| "walk_entries pf dir [] files = Inr files"
| "walk_entries pf dir (Directory name sub # rest) files =
     (let full = join pf dir name
      in case walk pf full sub files of
           Inl e \<Rightarrow> Inl e
         | Inr files' \<Rightarrow> walk_entries pf dir rest files')"
| "walk_entries pf dir (RegFile name # rest) files =
     (let full = join pf dir name;
          ext = toLowerCase (extname pf name)
      in walk_entries pf dir rest (if ext = ''.pdf'' then files @ [full] else files))"
| "walk_entries pf dir (OtherEntry name # rest) files = walk_entries pf dir rest files"

section \<open>Dispatch limiter\<close>

text \<open>
  The operations handed to the limiter: \<^verbatim>\<open>limit(() => uploadFile(p))\<close> and
  \<^verbatim>\<open>limit(() => deleteKey(p))\<close>.
\<close>

datatype task = Upload string | Delete string

text \<open>
  Modelled from the spec: the package \<^verbatim>\<open>p-limit\<close>, whose source is not among the files
  of the repository, which only calls \<^verbatim>\<open>pLimit(CONCURRENCY)\<close> and \<^verbatim>\<open>limit(fn)\<close>.
  The limiter keeps the tasks that are executing and a first-in first-out queue of the
  others; a scheduled task joins the queue and the head of the queue begins when fewer
  than \<open>concurrency\<close> tasks are executing; when a task settles its slot goes to the head
  of the queue. \<open>admitted\<close> records the order in which tasks began.
\<close>

record 'a limiter =
  concurrency :: int
  active :: "'a list"
  queue :: "'a list"
  admitted :: "'a list"

definition pLimit :: "int \<Rightarrow> error + 'a limiter" where
  "pLimit n =
     (if 1 \<le> n then Inr \<lparr> concurrency = n, active = [], queue = [], admitted = [] \<rparr>
      else Inl TypeError)"

definition admit_next :: "'a limiter \<Rightarrow> 'a limiter" where
  "admit_next L =
     (case queue L of
        [] \<Rightarrow> L
      | t # ts \<Rightarrow> L\<lparr> active := active L @ [t], queue := ts, admitted := admitted L @ [t] \<rparr>)"

definition limit :: "'a \<Rightarrow> 'a limiter \<Rightarrow> 'a limiter" where
  "limit t L =
     (let L' = L\<lparr> queue := queue L @ [t] \<rparr>
      in if int (length (active L')) < concurrency L' then admit_next L' else L')"

definition settle :: "'a \<Rightarrow> 'a limiter \<Rightarrow> 'a limiter" where
  "settle t L =
     (if t \<in> set (active L) then admit_next (L\<lparr> active := remove1 t (active L) \<rparr>) else L)"

text \<open>A history of the limiter: tasks are scheduled, and executing tasks settle.\<close>

datatype 'a limiter_event = Schedule 'a | Settle 'a

fun limiter_step :: "'a limiter_event \<Rightarrow> 'a limiter \<Rightarrow> 'a limiter" where
  "limiter_step (Schedule t) L = limit t L"
| "limiter_step (Settle t) L = settle t L"

definition limiter_run :: "'a limiter_event list \<Rightarrow> 'a limiter \<Rightarrow> 'a limiter" where
  "limiter_run evs L = fold limiter_step evs L"

definition scheduled :: "'a limiter_event list \<Rightarrow> 'a list" where
  "scheduled evs = concat (map (\<lambda>e. case e of Schedule t \<Rightarrow> [t] | Settle _ \<Rightarrow> []) evs)"

text \<open>
  The instrumented counter of the spec's test: the largest number of tasks executing at
  any moment of a history.
\<close>

fun limiter_peak :: "'a limiter_event list \<Rightarrow> 'a limiter \<Rightarrow> nat" where
  "limiter_peak [] L = length (active L)"
| "limiter_peak (e # evs) L = max (length (active L)) (limiter_peak evs (limiter_step e L))"

section \<open>Event debouncer\<close>

text \<open>
  The delay of a timer of Node: \<^verbatim>\<open>setTimeout(f, ms)\<close> replaces a delay below 1 or
  above 2147483647 (and \<^verbatim>\<open>NaN\<close>) by 1. Time is counted in milliseconds.
\<close>

definition timeout_delay :: "int \<Rightarrow> int" where
  "timeout_delay ms = (if 1 \<le> ms \<and> ms \<le> 2147483647 then ms else 1)"

text \<open>
  An armed timer of \<^verbatim>\<open>scheduleOp\<close>: its identifier, the time at which it is due, and
  what its callback has captured. A call \<^verbatim>\<open>setTimeout(f, ms)\<close> at time \<open>t\<close> arms a
  timer due at \<open>t + timeout_delay ms\<close>.
\<close>

record timer =
  timer_id :: nat
  due :: int
  op_type :: string
  op_path :: string
  op_key :: string

text \<open>
  The state the debouncer works on: the clock, the armed timers in the order they were
  armed, \<^verbatim>\<open>debounceMap\<close>, and the calls of \<^verbatim>\<open>limit\<close> made so far.
\<close>

record debouncer =
  clock :: int
  next_timer :: nat
  timers :: "timer list"
  debounceMap :: "string \<rightharpoonup> nat"
  submitted :: "task list"

definition debouncer_init :: debouncer where
  "debouncer_init =
     \<lparr> clock = 0, next_timer = 0, timers = [], debounceMap = Map.empty, submitted = [] \<rparr>"

definition clearTimeout :: "nat \<Rightarrow> debouncer \<Rightarrow> debouncer" where
  "clearTimeout i s = s\<lparr> timers := filter (\<lambda>t. timer_id t \<noteq> i) (timers s) \<rparr>"

text \<open>
  \<^verbatim>\<open>scheduleOp(type, filePath)\<close>. An exception of \<^verbatim>\<open>localPathToKey\<close> would leave the
  function before it has changed anything.
\<close>

definition scheduleOp :: "platform \<Rightarrow> config \<Rightarrow> string \<Rightarrow> string \<Rightarrow> debouncer \<Rightarrow> debouncer" where
  "scheduleOp pf cfg type filePath s =
     (case localPathToKey pf (LOCAL_DIR cfg) (Str filePath) of
        Inl e \<Rightarrow> s
      | Inr key \<Rightarrow>
          (let s1 = (case debounceMap s key of
                       Some existing \<Rightarrow> clearTimeout existing s
                     | None \<Rightarrow> s);
               i = next_timer s1;
               t = \<lparr> timer_id = i, due = clock s1 + timeout_delay (DEBOUNCE_MS cfg),
                     op_type = type, op_path = filePath, op_key = key \<rparr>;
               s2 = s1\<lparr> timers := timers s1 @ [t], next_timer := i + 1 \<rparr>
           in s2\<lparr> debounceMap := (debounceMap s2)(key \<mapsto> i) \<rparr>))"

text \<open>The callback given to \<^verbatim>\<open>setTimeout\<close>.\<close>

definition timer_callback :: "timer \<Rightarrow> debouncer \<Rightarrow> debouncer" where
  "timer_callback t s =
     (let s1 = s\<lparr> debounceMap := (debounceMap s)(op_key t := None) \<rparr>
      in if op_type t = ''add'' \<or> op_type t = ''change''
         then s1\<lparr> submitted := submitted s1 @ [Upload (op_path t)] \<rparr>
         else if op_type t = ''unlink''
         then s1\<lparr> submitted := submitted s1 @ [Delete (op_path t)] \<rparr>
         else s1)"

text \<open>
  Time passes until \<open>T\<close>: the timers due by then expire, the earliest first (in the order
  they were armed when due together), and their callbacks run.
\<close>

definition advance :: "int \<Rightarrow> debouncer \<Rightarrow> debouncer" where
  "advance T s =
     (let expired = sort_key due (filter (\<lambda>t. due t \<le> T) (timers s));
          s1 = s\<lparr> clock := max (clock s) T,
                  timers := filter (\<lambda>t. \<not> due t \<le> T) (timers s) \<rparr>
      in fold timer_callback expired s1)"

text \<open>The handlers the watcher registers for its three kinds of notification.\<close>

datatype notification = Add string | Change string | Unlink string

fun on_notification :: "platform \<Rightarrow> config \<Rightarrow> notification \<Rightarrow> debouncer \<Rightarrow> debouncer" where
  "on_notification pf cfg (Add p) s = scheduleOp pf cfg ''add'' p s"
| "on_notification pf cfg (Change p) s = scheduleOp pf cfg ''change'' p s"
| "on_notification pf cfg (Unlink p) s = scheduleOp pf cfg ''unlink'' p s"

text \<open>A notification delivered at time \<open>t\<close>, and a sequence of them.\<close>

definition deliver :: "platform \<Rightarrow> config \<Rightarrow> int \<times> notification \<Rightarrow> debouncer \<Rightarrow> debouncer" where
  "deliver pf cfg tn s = on_notification pf cfg (snd tn) (advance (fst tn) s)"

definition deliver_all ::
  "platform \<Rightarrow> config \<Rightarrow> (int \<times> notification) list \<Rightarrow> debouncer \<Rightarrow> debouncer" where
  "deliver_all pf cfg ns s = fold (deliver pf cfg) ns s"

text \<open>What the notifications are about.\<close>

fun notification_path :: "notification \<Rightarrow> string" where
  "notification_path (Add p) = p"
| "notification_path (Change p) = p"
| "notification_path (Unlink p) = p"

fun notification_type :: "notification \<Rightarrow> string" where
  "notification_type (Add p) = ''add''"
| "notification_type (Change p) = ''change''"
| "notification_type (Unlink p) = ''unlink''"

fun notification_task :: "notification \<Rightarrow> task" where
  "notification_task (Add p) = Upload p"
| "notification_task (Change p) = Upload p"
| "notification_task (Unlink p) = Delete p"

fun task_path :: "task \<Rightarrow> string" where
  "task_path (Upload p) = p"
| "task_path (Delete p) = p"

text \<open>The operations handed to the limiter so far for the paths of one key.\<close>

definition submitted_for :: "platform \<Rightarrow> config \<Rightarrow> string \<Rightarrow> debouncer \<Rightarrow> task list" where
  "submitted_for pf cfg key s =
     filter (\<lambda>x. localPathToKey pf (LOCAL_DIR cfg) (Str (task_path x)) = Inr key) (submitted s)"

text \<open>The notifications of a sequence that concern one key.\<close>

definition notifications_for ::
  "platform \<Rightarrow> config \<Rightarrow> string \<Rightarrow> (int \<times> notification) list \<Rightarrow> (int \<times> notification) list" where
  "notifications_for pf cfg key ns =
     filter (\<lambda>tn. localPathToKey pf (LOCAL_DIR cfg) (Str (notification_path (snd tn))) = Inr key) ns"

definition pending :: "debouncer \<Rightarrow> string \<Rightarrow> timer list" where
  "pending s key = filter (\<lambda>t. op_key t = key) (timers s)"

text \<open>
  A burst: notifications in the order of their times, each less than \<open>window\<close> after the
  one before.
\<close>

fun burst :: "int \<Rightarrow> (int \<times> notification) list \<Rightarrow> bool" where
  "burst window [] = True"
| "burst window [tn] = True"
| "burst window (tn # tn' # ns) =
     (fst tn \<le> fst tn' \<and> fst tn' - fst tn < window \<and> burst window (tn' # ns))"

section \<open>Sync engine\<close>

text \<open>
  What the process does from its start until the watcher is attached, as a list of
  events: \<open>Scheduled i t\<close> is the call of \<^verbatim>\<open>limit\<close> for the \<open>i\<close>-th file found,
  \<open>Settled i t evs\<close> the end of that task after the executor's events \<open>evs\<close>,
  \<open>WatcherAttached\<close> the call of \<^verbatim>\<open>startWatcher\<close>.
\<close>

datatype main_event =
    Scheduled nat task
  | Settled nat task "event list"
  | WatcherAttached
  | Uncaught error
  | FatalError error
  | Exit nat

datatype outcome = Resolved | Rejected error | NeverSettles

record filesystem =
  root_readable :: bool
  root_listing :: listing

definition run_task :: "platform \<Rightarrow> config \<Rightarrow> world \<Rightarrow> task \<Rightarrow> event list \<times> (error + unit)" where
  "run_task pf cfg w t =
     (case t of
        Upload p \<Rightarrow> uploadFile pf cfg w p 1
      | Delete p \<Rightarrow> deleteKey pf cfg w p 1)"

text \<open>
  \<^verbatim>\<open>await Promise.all(...)\<close> over the promises of the limiter: while promises are
  pending, one of the executing tasks settles next (\<open>sched\<close> picks which, \<open>worlds i\<close> is
  what task \<open>i\<close> meets), and the limiter admits the next queued task. The wait ends when
  no promise is pending, or at the first rejection; it never ends if promises are pending
  and no task is executing.
\<close>

function await_all ::
  "platform \<Rightarrow> config \<Rightarrow> (nat \<Rightarrow> world) \<Rightarrow> (nat \<Rightarrow> nat) \<Rightarrow> (nat \<times> task) limiter \<Rightarrow> nat \<Rightarrow> nat
     \<Rightarrow> main_event list \<times> outcome" where
  "await_all pf cfg worlds sched L waiting step =
     (if waiting = 0 then ([], Resolved)
      else if active L = [] then ([], NeverSettles)
      else (let it = active L ! (sched step mod length (active L))
            in case run_task pf cfg (worlds (fst it)) (snd it) of
                 (evs, Inl e) \<Rightarrow> ([Settled (fst it) (snd it) evs], Rejected e)
               | (evs, Inr u) \<Rightarrow>
                   (case await_all pf cfg worlds sched (settle it L) (waiting - 1) (step + 1) of
                      (evs', out) \<Rightarrow> (Settled (fst it) (snd it) evs # evs', out))))"
  by pat_completeness auto
termination
  by (relation "measure (\<lambda>(pf, cfg, worlds, sched, L, waiting, step). waiting)") auto

declare await_all.simps [simp del]

text \<open>
  The tasks of the initial sync: \<^verbatim>\<open>() => uploadFile(f)\<close> for each file found, numbered
  in the order of \<^verbatim>\<open>files\<close>.
\<close>

definition initial_tasks :: "string list \<Rightarrow> (nat \<times> task) list" where
  "initial_tasks files = zip [0..<length files] (map Upload files)"

text \<open>
  \<^verbatim>\<open>initialSync()\<close>: the walk, one call of \<^verbatim>\<open>limit\<close> for each file found, and the
  wait for all of them.
\<close>

definition initialSync ::
  "platform \<Rightarrow> config \<Rightarrow> filesystem \<Rightarrow> (nat \<Rightarrow> world) \<Rightarrow> (nat \<Rightarrow> nat) \<Rightarrow> (nat \<times> task) limiter
     \<Rightarrow> main_event list \<times> outcome" where
  "initialSync pf cfg fs worlds sched L =
     (case walk pf (LOCAL_DIR cfg) (root_listing fs) [] of
        Inl e \<Rightarrow> ([], Rejected e)
      | Inr files \<Rightarrow>
          (let tasks = initial_tasks files;
               L' = fold limit tasks L
           in case await_all pf cfg worlds sched L' (length tasks) 0 of
                (evs, out) \<Rightarrow> (map (\<lambda>it. Scheduled (fst it) (snd it)) tasks @ evs, out)))"

text \<open>
  The module from its load to the end of \<^verbatim>\<open>main()\<close>: the check of the settings,
  \<^verbatim>\<open>pLimit(CONCURRENCY)\<close>, \<^verbatim>\<open>ensureLocalDirExists\<close>, \<^verbatim>\<open>initialSync\<close> and
  \<^verbatim>\<open>startWatcher\<close>. The second component is the state of the debouncer at the end:
  \<^verbatim>\<open>debounceMap\<close> is created empty at load and nothing before \<^verbatim>\<open>startWatcher\<close> refers
  to it.
\<close>

definition main ::
  "platform \<Rightarrow> config \<Rightarrow> filesystem \<Rightarrow> (nat \<Rightarrow> world) \<Rightarrow> (nat \<Rightarrow> nat)
     \<Rightarrow> main_event list \<times> debouncer" where
  "main pf cfg fs worlds sched =
     (if R2_ENDPOINT cfg = [] \<or> BUCKET cfg = [] \<or> ACCESS_KEY cfg = [] \<or> SECRET_KEY cfg = []
      then ([Exit 1], debouncer_init)
      else (case pLimit (CONCURRENCY cfg) of
              Inl e \<Rightarrow> ([Uncaught e], debouncer_init)
            | Inr L \<Rightarrow>
                if \<not> root_readable fs then ([Exit 1], debouncer_init)
                else (case initialSync pf cfg fs worlds sched L of
                        (evs, Resolved) \<Rightarrow> (evs @ [WatcherAttached], debouncer_init)
                      | (evs, Rejected e) \<Rightarrow> (evs @ [FatalError e, Exit 1], debouncer_init)
                      | (evs, NeverSettles) \<Rightarrow> (evs, debouncer_init))))"

section \<open>Auxiliary notions for the proofs\<close>

text \<open>Path segments as the normalisation leaves them: non-empty and free of slashes.\<close>

definition good_segs :: "string list \<Rightarrow> bool" where
  "good_segs xs = (\<forall>x\<in>set xs. x \<noteq> [] \<and> CHR ''/'' \<notin> set x)"

text \<open>Segments of a normalised absolute path: no \<^verbatim>\<open>.\<close> and no \<^verbatim>\<open>..\<close> either.\<close>

definition normal_segs :: "string list \<Rightarrow> bool" where
  "normal_segs xs = (good_segs xs \<and> ''.'' \<notin> set xs \<and> ''..'' \<notin> set xs)"

text \<open>\<^verbatim>\<open>path.isAbsolute\<close>, which holds of the working directory of a process.\<close>

definition is_absolute :: "string \<Rightarrow> bool" where
  "is_absolute p = (p \<noteq> [] \<and> hd p = CHR ''/'')"

text \<open>
  What the steps of the debouncer preserve: the armed timers have distinct identifiers,
  all handed out already, and \<open>debounceMap\<close> holds, at the key of each armed timer,
  the identifier of that timer.
\<close>

definition debounce_inv :: "debouncer \<Rightarrow> bool" where
  "debounce_inv s =
     (distinct (map timer_id (timers s))
      \<and> (\<forall>t\<in>set (timers s).
            timer_id t < next_timer s \<and> debounceMap s (op_key t) = Some (timer_id t)))"

text \<open>
  Further, the key of each armed timer is the key of its path, and an identifier held in
  \<open>debounceMap\<close> at a key is that of an armed timer for that key.
\<close>

definition debounce_keys :: "platform \<Rightarrow> config \<Rightarrow> debouncer \<Rightarrow> bool" where
  "debounce_keys pf cfg s =
     ((\<forall>t\<in>set (timers s). localPathToKey pf (LOCAL_DIR cfg) (Str (op_path t)) = Inr (op_key t))
      \<and> (\<forall>key i. debounceMap s key = Some i \<longrightarrow>
            (\<exists>t\<in>set (timers s). timer_id t = i \<and> op_key t = key)))"

text \<open>
  The timers pending for a key after the notifications \<open>prev\<close> of that key (none, or
  the latest one): none, or one timer, with the type and the path of that notification and
  due one window after it.
\<close>

definition armed_for :: "config \<Rightarrow> (int \<times> notification) list \<Rightarrow> timer list \<Rightarrow> bool" where
  "armed_for cfg prev tms =
     (case prev of
        [] \<Rightarrow> tms = []
      | tn # others \<Rightarrow>
          others = [] \<and>
          (\<exists>tm. tms = [tm] \<and> due tm = fst tn + timeout_delay (DEBOUNCE_MS cfg)
                \<and> op_type tm = notification_type (snd tn)
                \<and> op_path tm = notification_path (snd tn)))"

text \<open>The one operation that notifications of a key lead to: that of the last of them.\<close>

definition final_task :: "(int \<times> notification) list \<Rightarrow> task list" where
  "final_task ns = (if ns = [] then [] else [notification_task (snd (last ns))])"

text \<open>What the callback of a timer hands to the limiter.\<close>

definition timer_tasks :: "timer \<Rightarrow> task list" where
  "timer_tasks t =
     (if op_type t = ''add'' \<or> op_type t = ''change'' then [Upload (op_path t)]
      else if op_type t = ''unlink'' then [Delete (op_path t)]
      else [])"

text \<open>
  The spec's notion of a path under the root, on a POSIX system: the segments of the
  resolved root begin those of the resolved path.
\<close>

definition under_root :: "string \<Rightarrow> string \<Rightarrow> string \<Rightarrow> bool" where
  "under_root cwd root p =
     prefix (path_segments (posix_resolve cwd [root])) (path_segments (posix_resolve cwd [p]))"

section \<open>The walker of the spec\<close>

text \<open>
  The regular files of a tree, each with its path and its entry name, in the order of a
  depth-first walk; nothing is known below a directory that cannot be read.
\<close>

fun regular_files :: "platform \<Rightarrow> string \<Rightarrow> listing \<Rightarrow> (string \<times> string) list"
and regular_files_in :: "platform \<Rightarrow> string \<Rightarrow> dirent list \<Rightarrow> (string \<times> string) list"
where
  "regular_files pf dir Unreadable = []"
| "regular_files pf dir (Entries entries) = regular_files_in pf dir entries"
| "regular_files_in pf dir [] = []"
| "regular_files_in pf dir (Directory name sub # rest) =
     regular_files pf (join pf dir name) sub @ regular_files_in pf dir rest"
| "regular_files_in pf dir (RegFile name # rest) =
     (join pf dir name, name) # regular_files_in pf dir rest"
| "regular_files_in pf dir (OtherEntry name # rest) = regular_files_in pf dir rest"

text \<open>Some directory of the tree cannot be read.\<close>

fun unreadable :: "listing \<Rightarrow> bool"
and unreadable_in :: "dirent list \<Rightarrow> bool"
where
  "unreadable Unreadable = True"
| "unreadable (Entries entries) = unreadable_in entries"
| "unreadable_in [] = False"
| "unreadable_in (Directory name sub # rest) = (unreadable sub \<or> unreadable_in rest)"
| "unreadable_in (RegFile name # rest) = unreadable_in rest"
| "unreadable_in (OtherEntry name # rest) = unreadable_in rest"

text \<open>
  The walker as the spec words it: it has a configured eligibility filter, a list of
  extensions, produces every regular file whose extension matches the filter, and skips
  a subtree that cannot be read.
\<close>

definition eligible :: "platform \<Rightarrow> string list \<Rightarrow> string \<Rightarrow> bool" where
  "eligible pf filter_exts name = (toLowerCase (extname pf name) \<in> set filter_exts)"

definition walk_spec :: "platform \<Rightarrow> string list \<Rightarrow> string \<Rightarrow> listing \<Rightarrow> string list" where
  "walk_spec pf filter_exts dir l =
     map fst (filter (\<lambda>fn. eligible pf filter_exts (snd fn)) (regular_files pf dir l))"

text \<open>The event of a task of the initial sync settling, with what its execution did.\<close>

definition settled_event ::
  "platform \<Rightarrow> config \<Rightarrow> (nat \<Rightarrow> world) \<Rightarrow> nat \<times> task \<Rightarrow> main_event" where
  "settled_event pf cfg worlds it =
     Settled (fst it) (snd it) (fst (run_task pf cfg (worlds (fst it)) (snd it)))"

section \<open>Example values\<close>

text \<open>
  The settings with the defaults of the source (\<^verbatim>\<open>./pdf\<close>, 4, 3, 500), a store that
  rejects every call, and a file system on which every read is rejected.
\<close>

definition default_config :: config where
  "default_config =
     \<lparr> R2_ENDPOINT = ''https://r2.example'', BUCKET = ''docs'', ACCESS_KEY = ''id'',
       SECRET_KEY = ''secret'', LOCAL_DIR = ''./pdf'', CONCURRENCY = 4, RETRY_LIMIT = 3,
       DEBOUNCE_MS = 500 \<rparr>"

definition rejecting_store :: world where
  "rejecting_store =
     \<lparr> readFile = (\<lambda>n p. Some ''%PDF''), send_ok = (\<lambda>n key. False),
       mime_lookup = (\<lambda>p. Some ''application/pdf'') \<rparr>"

definition unreadable_files :: world where
  "unreadable_files =
     \<lparr> readFile = (\<lambda>n p. None), send_ok = (\<lambda>n key. True), mime_lookup = (\<lambda>p. None) \<rparr>"

definition hundred_tasks :: "nat limiter_event list" where
  "hundred_tasks = map Schedule [0..<100]"

definition home :: string where
  "home = ''/home/user/sync''"

section \<open>Splitting and joining\<close>

lemma js_split_not_Nil: "js_split d s \<noteq> []"
  by (induction s) (auto split: list.splits)

lemma js_join_Cons_Cons: "js_join g ((c # x) # xs) = c # js_join g (x # xs)"
  by (cases xs) simp_all

lemma js_join_split_replace:
  "js_join [g] (js_split d s) = map (\<lambda>c. if c = d then g else c) s"
proof (induction s)
  case Nil
  show ?case by simp
next
  case (Cons c cs)
  obtain x xs where spl: "js_split d cs = x # xs"
    using js_split_not_Nil [of d cs] by (cases "js_split d cs") auto
  show ?case
  proof (cases "c = d")
    case True
    with Cons spl show ?thesis by simp
  next
    case False
    with Cons spl show ?thesis by (simp add: js_join_Cons_Cons)
  qed
qed

lemma js_split_append_sep:
  "js_split d (a @ d # b) = js_split d a @ js_split d b"
proof (induction a)
  case Nil
  show ?case by simp
next
  case (Cons c a)
  obtain x xs where spl: "js_split d a = x # xs"
    using js_split_not_Nil [of d a] by (cases "js_split d a") auto
  with Cons show ?case by simp
qed

lemma js_split_no_sep: "d \<notin> set s \<Longrightarrow> js_split d s = [s]"
  by (induction s) auto

lemma js_split_pieces: "x \<in> set (js_split d s) \<Longrightarrow> d \<notin> set x"
proof (induction s arbitrary: x)
  case Nil
  then show ?case by simp
next
  case (Cons c cs)
  obtain y ys where spl: "js_split d cs = y # ys"
    using js_split_not_Nil [of d cs] by (cases "js_split d cs") auto
  with Cons show ?case by (auto split: if_splits)
qed

lemma good_segs_norm_step:
  "good_segs res \<Longrightarrow> CHR ''/'' \<notin> set seg \<Longrightarrow> good_segs (norm_step a res seg)"
  by (auto simp: good_segs_def norm_step_def dest: in_set_butlastD)

lemma good_segs_foldl:
  "good_segs res \<Longrightarrow> \<forall>x\<in>set xs. CHR ''/'' \<notin> set x \<Longrightarrow> good_segs (foldl (norm_step a) res xs)"
  by (induction xs arbitrary: res) (auto simp: good_segs_norm_step)

lemma good_segs_norm_segments: "good_segs (norm_segments a p)"
  unfolding norm_segments_def
  by (rule good_segs_foldl) (auto simp: good_segs_def dest: js_split_pieces)

lemma js_split_join:
  "good_segs xs \<Longrightarrow> xs \<noteq> [] \<Longrightarrow> js_split CHR ''/'' (js_join ''/'' xs) = xs"
proof (induction xs)
  case Nil
  then show ?case by simp
next
  case (Cons x xs)
  show ?case
  proof (cases xs)
    case Nil
    with Cons.prems show ?thesis by (simp add: good_segs_def js_split_no_sep)
  next
    case (Cons y ys)
    with Cons.prems Cons.IH show ?thesis
      by (simp add: good_segs_def js_split_append_sep js_split_no_sep)
  qed
qed

lemma path_segments_join: "good_segs xs \<Longrightarrow> path_segments (js_join ''/'' xs) = xs"
proof (cases xs)
  case Nil
  then show ?thesis by (simp add: path_segments_def)
next
  case (Cons y ys)
  assume g: "good_segs xs"
  then have "filter (\<lambda>s. s \<noteq> []) xs = xs" by (auto simp: good_segs_def)
  with g Cons show ?thesis by (simp add: path_segments_def js_split_join)
qed

lemma path_segments_slash_join:
  "good_segs xs \<Longrightarrow> path_segments (CHR ''/'' # js_join ''/'' xs) = xs"
  using path_segments_join [of xs] by (simp add: path_segments_def)

section \<open>Paths on a POSIX system\<close>

lemma replace_same: "map (\<lambda>c. if c = d then d else c) s = s"
  by (induction s) auto

lemma drop_common_append: "drop_common (xs @ ys) (xs @ zs) = drop_common ys zs"
  by (induction xs) auto

lemma drop_common_same: "drop_common xs xs = ([], [])"
  by (induction xs) auto

lemma norm_segments_append:
  "norm_segments a (x @ CHR ''/'' # y) =
     foldl (norm_step a) (norm_segments a x) (js_split CHR ''/'' y)"
  by (simp add: norm_segments_def js_split_append_sep)

lemma norm_segments_trailing: "norm_segments a (x @ ''/'') = norm_segments a x"
  using norm_segments_append [of a x "[]"] by (simp add: norm_step_def)

lemma norm_segments_leading: "norm_segments a (CHR ''/'' # x) = norm_segments a x"
  by (simp add: norm_segments_def norm_step_def)

lemma normal_segs_norm_step:
  "normal_segs res \<Longrightarrow> CHR ''/'' \<notin> set seg \<Longrightarrow> normal_segs (norm_step False res seg)"
  by (auto simp: normal_segs_def good_segs_def norm_step_def dest: in_set_butlastD)

lemma normal_segs_foldl:
  "normal_segs res \<Longrightarrow> \<forall>x\<in>set xs. CHR ''/'' \<notin> set x
     \<Longrightarrow> normal_segs (foldl (norm_step False) res xs)"
  by (induction xs arbitrary: res) (auto simp: normal_segs_norm_step)

lemma normal_segs_norm_segments: "normal_segs (norm_segments False p)"
  unfolding norm_segments_def
  by (rule normal_segs_foldl) (auto simp: normal_segs_def good_segs_def dest: js_split_pieces)

lemma foldl_norm_step_normal:
  "normal_segs xs \<Longrightarrow> foldl (norm_step a) res xs = res @ xs"
  by (induction xs arbitrary: res) (auto simp: normal_segs_def good_segs_def norm_step_def)

lemma norm_segments_join:
  assumes "normal_segs xs"
  shows "norm_segments a (js_join ''/'' xs) = xs"
proof (cases "xs = []")
  case True
  then show ?thesis by (simp add: norm_segments_def norm_step_def)
next
  case False
  with assms have "js_split CHR ''/'' (js_join ''/'' xs) = xs"
    by (simp add: js_split_join normal_segs_def)
  with assms show ?thesis
    by (simp add: norm_segments_def foldl_norm_step_normal)
qed

text \<open>With an absolute working directory, a resolved path is a slash and normal segments.\<close>

lemma posix_resolve_form:
  assumes "is_absolute cwd"
  shows "\<exists>raw. posix_resolve cwd [p] = CHR ''/'' # js_join ''/'' (norm_segments False raw)"
proof -
  from assms have "\<exists>raw. resolve_loop [p, cwd] [] False = (raw, True)"
    by (auto simp: is_absolute_def)
  then show ?thesis
    by (auto simp: posix_resolve_def normalizeString_def)
qed

lemma posix_resolve_segments:
  assumes "is_absolute cwd"
  shows "normal_segs (path_segments (posix_resolve cwd [p]))"
    and "posix_resolve cwd [p] = CHR ''/'' # js_join ''/'' (path_segments (posix_resolve cwd [p]))"
proof -
  obtain raw where r: "posix_resolve cwd [p] = CHR ''/'' # js_join ''/'' (norm_segments False raw)"
    using posix_resolve_form [OF assms] by blast
  have n: "normal_segs (norm_segments False raw)" by (rule normal_segs_norm_segments)
  then have ps: "path_segments (posix_resolve cwd [p]) = norm_segments False raw"
    by (simp add: r path_segments_slash_join normal_segs_def)
  show "normal_segs (path_segments (posix_resolve cwd [p]))" using n ps by simp
  show "posix_resolve cwd [p] = CHR ''/'' # js_join ''/'' (path_segments (posix_resolve cwd [p]))"
    using r ps by simp
qed

lemma posix_resolve_idem:
  assumes "is_absolute cwd"
  shows "posix_resolve cwd [posix_resolve cwd [p]] = posix_resolve cwd [p]"
proof -
  let ?S = "path_segments (posix_resolve cwd [p])"
  have n: "normal_segs ?S" and r: "posix_resolve cwd [p] = CHR ''/'' # js_join ''/'' ?S"
    using posix_resolve_segments [OF assms] by blast+
  have "resolve_loop [CHR ''/'' # js_join ''/'' ?S, cwd] [] False
          = ((CHR ''/'' # js_join ''/'' ?S) @ ''/'', True)"
    by simp
  moreover have "norm_segments False ((CHR ''/'' # js_join ''/'' ?S) @ ''/'') = ?S"
    using n by (simp only: norm_segments_trailing norm_segments_leading norm_segments_join)
  ultimately have "posix_resolve cwd [CHR ''/'' # js_join ''/'' ?S] = CHR ''/'' # js_join ''/'' ?S"
    by (simp add: posix_resolve_def normalizeString_def)
  with r show ?thesis by simp
qed

lemma relative_segments_same: "relative_segments xs xs = []"
  by (simp add: relative_segments_def drop_common_same)

text \<open>The key on a POSIX system, in terms of the segments of the two resolved paths.\<close>

lemma posix_key:
  assumes "is_absolute cwd"
  shows "localPathToKey (posix cwd) root (Str p) =
           Inr (js_join ''/'' (relative_segments (path_segments (posix_resolve cwd [root]))
                                                 (path_segments (posix_resolve cwd [p]))))"
proof -
  let ?f = "posix_resolve cwd [root]" and ?t = "posix_resolve cwd [p]"
  have "posix_relative cwd ?f ?t =
          js_join ''/'' (relative_segments (path_segments ?f) (path_segments ?t))"
    by (auto simp: posix_relative_def posix_resolve_idem [OF assms] relative_segments_same)
  then show ?thesis
    by (simp add: localPathToKey_def posix_def js_join_split_replace [of "CHR ''/''", simplified] replace_same)
qed

lemma posix_resolve_relative:
  assumes "is_absolute cwd" and "p \<noteq> []" and "hd p \<noteq> CHR ''/''"
  shows "path_segments (posix_resolve cwd [p]) =
           foldl (norm_step False) (norm_segments False cwd) (js_split CHR ''/'' p)"
proof -
  let ?S = "foldl (norm_step False) (norm_segments False cwd) (js_split CHR ''/'' p)"
  have "normal_segs ?S"
    by (rule normal_segs_foldl) (auto simp: normal_segs_norm_segments dest: js_split_pieces)
  moreover from assms have "resolve_loop [p, cwd] [] False = (cwd @ CHR ''/'' # (p @ ''/''), True)"
    by (simp add: is_absolute_def)
  moreover have "norm_segments False (cwd @ CHR ''/'' # (p @ ''/'')) = ?S"
    using norm_segments_append [of False cwd "p @ ''/''"]
          js_split_append_sep [of "CHR ''/''" p "[]"]
    by (simp add: norm_step_def)
  ultimately show ?thesis
    by (simp add: posix_resolve_def normalizeString_def path_segments_slash_join normal_segs_def)
qed

lemma posix_key_example:
  assumes "is_absolute cwd"
  shows "localPathToKey (posix cwd) ''./pdf'' (Str ''./pdf/sub/doc.pdf'') = Inr ''sub/doc.pdf''"
proof -
  let ?S = "norm_segments False cwd"
  have f: "path_segments (posix_resolve cwd [''./pdf'']) = ?S @ [''pdf'']"
    using assms by (simp add: posix_resolve_relative norm_step_def)
  have t: "path_segments (posix_resolve cwd [''./pdf/sub/doc.pdf''])
             = ?S @ [''pdf'', ''sub'', ''doc.pdf'']"
    using assms by (simp add: posix_resolve_relative norm_step_def)
  have "relative_segments (?S @ [''pdf'']) (?S @ [''pdf'', ''sub'', ''doc.pdf''])
          = [''sub'', ''doc.pdf'']"
    by (simp add: relative_segments_def drop_common_append)
  with f t show ?thesis
    by (simp add: posix_key [OF assms])
qed

lemma drop_common_prefix:
  "drop_common fs ts = (fs', ts') \<Longrightarrow> fs' = [] \<Longrightarrow> prefix fs ts"
  by (induction fs ts rule: drop_common.induct) (auto split: if_splits)

lemma relative_segments_outside:
  assumes "\<not> prefix fs ts"
  shows "\<exists>segs. relative_segments fs ts = ''..'' # segs"
proof -
  obtain fs' ts' where d: "drop_common fs ts = (fs', ts')" by (cases "drop_common fs ts")
  with assms have "fs' \<noteq> []" using drop_common_prefix by blast
  then obtain n where "length fs' = Suc n" by (cases fs') auto
  with d show ?thesis by (simp add: relative_segments_def)
qed

section \<open>Key mapper: properties\<close>

text \<open>
  Claim C4. The key is a function of the resolved path alone, so two spellings that
  resolve to the same absolute path get the same key; the key is the relative path with
  every occurrence of the platform's separator replaced by a slash, so that a separator
  other than the slash does not occur in it; and on a POSIX system, whatever the
  (absolute) working directory, root \<^verbatim>\<open>./pdf\<close> and file \<^verbatim>\<open>./pdf/sub/doc.pdf\<close> give
  the key \<^verbatim>\<open>sub/doc.pdf\<close>.
\<close>

theorem key_mapping_deterministic_normalised:
  "(resolve pf p = resolve pf q \<longrightarrow>
      localPathToKey pf root (Str p) = localPathToKey pf root (Str q))
   \<and> localPathToKey pf root (Str p) =
       Inr (map (\<lambda>c. if c = sep pf then CHR ''/'' else c)
                (relative pf (resolve pf root) (resolve pf p)))
   \<and> (\<forall>key. localPathToKey pf root (Str p) = Inr key \<and> sep pf \<noteq> CHR ''/''
          \<longrightarrow> sep pf \<notin> set key)
   \<and> (is_absolute cwd \<longrightarrow>
        localPathToKey (posix cwd) ''./pdf'' (Str ''./pdf/sub/doc.pdf'') = Inr ''sub/doc.pdf'')"
proof (intro conjI impI allI)
  assume "resolve pf p = resolve pf q"
  then show "localPathToKey pf root (Str p) = localPathToKey pf root (Str q)"
    by (simp add: localPathToKey_def)
next
  show "localPathToKey pf root (Str p) =
          Inr (map (\<lambda>c. if c = sep pf then CHR ''/'' else c)
                   (relative pf (resolve pf root) (resolve pf p)))"
    using js_join_split_replace [of "CHR ''/''" "sep pf"]
    by (simp add: localPathToKey_def)
next
  fix key
  assume "localPathToKey pf root (Str p) = Inr key \<and> sep pf \<noteq> CHR ''/''"
  then show "sep pf \<notin> set key"
    using js_join_split_replace [of "CHR ''/''" "sep pf"]
    by (auto simp: localPathToKey_def)
next
  assume "is_absolute cwd"
  then show "localPathToKey (posix cwd) ''./pdf'' (Str ''./pdf/sub/doc.pdf'') = Inr ''sub/doc.pdf''"
    by (rule posix_key_example)
qed

text \<open>
  The theorem at two spellings of one file on a POSIX system, and on a platform whose
  separator is the backslash.
\<close>

theorem key_mapping_deterministic_normalised_witness:
  "resolve (posix ''/home/user/sync'') ''./pdf/a.pdf''
     = resolve (posix ''/home/user/sync'') ''/home/user/sync/pdf/old/../a.pdf''
   \<and> localPathToKey (posix ''/home/user/sync'') ''./pdf'' (Str ''./pdf/a.pdf'') = Inr ''a.pdf''
   \<and> localPathToKey (posix ''/home/user/sync'') ''./pdf'' (Str ''/home/user/sync/pdf/old/../a.pdf'')
       = Inr ''a.pdf''
   \<and> is_absolute ''/home/user/sync''
   \<and> localPathToKey (posix ''/home/user/sync'') ''./pdf'' (Str ''./pdf/sub/doc.pdf'')
       = Inr ''sub/doc.pdf''
   \<and> localPathToKey
        \<lparr> sep = CHR 0x5C, resolve = (\<lambda>p. p), relative = (\<lambda>from to. drop (length from + 1) to),
          join = (\<lambda>a b. a @ [CHR 0x5C] @ b), extname = posix_extname \<rparr>
        [CHR ''C'', CHR '':'', CHR 0x5C, CHR ''p'', CHR ''d'', CHR ''f'']
        (Str [CHR ''C'', CHR '':'', CHR 0x5C, CHR ''p'', CHR ''d'', CHR ''f'', CHR 0x5C,
              CHR ''s'', CHR ''u'', CHR ''b'', CHR 0x5C, CHR ''a'', CHR ''.'', CHR ''p'', CHR ''d'', CHR ''f''])
       = Inr ''sub/a.pdf''
   \<and> CHR 0x5C \<notin> set ''sub/a.pdf''"
proof -
  let ?pf = "posix ''/home/user/sync''"
  let ?win = "\<lparr> sep = CHR 0x5C, resolve = (\<lambda>p. p), relative = (\<lambda>from to. drop (length from + 1) to),
          join = (\<lambda>a b. a @ [CHR 0x5C] @ b), extname = posix_extname \<rparr>"
  let ?root = "[CHR ''C'', CHR '':'', CHR 0x5C, CHR ''p'', CHR ''d'', CHR ''f'']"
  let ?p = "[CHR ''C'', CHR '':'', CHR 0x5C, CHR ''p'', CHR ''d'', CHR ''f'', CHR 0x5C,
              CHR ''s'', CHR ''u'', CHR ''b'', CHR 0x5C, CHR ''a'', CHR ''.'', CHR ''p'', CHR ''d'', CHR ''f'']"
  have same: "resolve ?pf ''./pdf/a.pdf'' = resolve ?pf ''/home/user/sync/pdf/old/../a.pdf''"
    by code_simp
  have k: "localPathToKey ?pf ''./pdf'' (Str ''./pdf/a.pdf'') = Inr ''a.pdf''"
    by code_simp
  have ab: "is_absolute ''/home/user/sync''"
    by (simp add: is_absolute_def)
  have w: "localPathToKey ?win ?root (Str ?p) = Inr ''sub/a.pdf''"
    by code_simp
  note t1 = key_mapping_deterministic_normalised
              [of ?pf "''./pdf/a.pdf''" "''/home/user/sync/pdf/old/../a.pdf''" "''./pdf''"
                  "''/home/user/sync''"]
  note t2 = key_mapping_deterministic_normalised [of ?win ?p ?p ?root "''/''"]
  from t1 same k ab
  have "localPathToKey ?pf ''./pdf'' (Str ''/home/user/sync/pdf/old/../a.pdf'') = Inr ''a.pdf''"
    and "localPathToKey ?pf ''./pdf'' (Str ''./pdf/sub/doc.pdf'') = Inr ''sub/doc.pdf''"
    by simp_all
  moreover from t2 w have "CHR 0x5C \<notin> set ''sub/a.pdf''"
    by simp
  ultimately show ?thesis using same k ab w by simp
qed

text \<open>
  Claim C5, as stated, fails: a path outside the root is not rejected. With root
  \<^verbatim>\<open>./pdf\<close> in \<^verbatim>\<open>/home/user/sync\<close>, the path \<^verbatim>\<open>/etc/passwd\<close> gets a key.
\<close>

theorem out_of_root_path_gets_a_key:
  "\<not> under_root ''/home/user/sync'' ''./pdf'' ''/etc/passwd''
   \<and> localPathToKey (posix ''/home/user/sync'') ''./pdf'' (Str ''/etc/passwd'')
       = Inr ''../../../../etc/passwd''"
  by code_simp

text \<open>
  Claim C5, amended. The key mapper raises an exception only for an argument that is not
  a string. For a path that is not under the root it returns the relative path that
  climbs out of the root: a key whose first segment is \<^verbatim>\<open>..\<close>.
\<close>

theorem key_mapper_failure_modes:
  "(localPathToKey pf root a = Inl e \<longleftrightarrow> a = NotAString \<and> e = TypeError)
   \<and> (is_absolute cwd \<and> \<not> under_root cwd root p \<longrightarrow>
        (\<exists>segs. localPathToKey (posix cwd) root (Str p) = Inr (js_join ''/'' (''..'' # segs))))"
proof (intro conjI impI)
  show "localPathToKey pf root a = Inl e \<longleftrightarrow> a = NotAString \<and> e = TypeError"
    by (cases a) (auto simp: localPathToKey_def Let_def)
next
  assume h: "is_absolute cwd \<and> \<not> under_root cwd root p"
  then obtain segs where
    "relative_segments (path_segments (posix_resolve cwd [root]))
                       (path_segments (posix_resolve cwd [p])) = ''..'' # segs"
    using relative_segments_outside unfolding under_root_def by blast
  with h show "\<exists>segs. localPathToKey (posix cwd) root (Str p) = Inr (js_join ''/'' (''..'' # segs))"
    by (auto simp: posix_key)
qed

theorem key_mapper_failure_modes_witness:
  "is_absolute ''/home/user/sync'' \<and> \<not> under_root ''/home/user/sync'' ''./pdf'' ''/etc/passwd''
   \<and> (\<exists>segs. localPathToKey (posix ''/home/user/sync'') ''./pdf'' (Str ''/etc/passwd'')
               = Inr (js_join ''/'' (''..'' # segs)))
   \<and> localPathToKey (posix ''/home/user/sync'') ''./pdf'' NotAString = Inl TypeError"
proof -
  have ab: "is_absolute ''/home/user/sync''"
    by (simp add: is_absolute_def)
  have nu: "\<not> under_root ''/home/user/sync'' ''./pdf'' ''/etc/passwd''"
    by code_simp
  note t = key_mapper_failure_modes
             [of "posix ''/home/user/sync''" "''./pdf''" NotAString TypeError
                 "''/home/user/sync''" "''/etc/passwd''"]
  from t ab nu show ?thesis by simp
qed

section \<open>Retrying operation executor: auxiliary facts\<close>

lemma localPathToKey_Str: "\<exists>key. localPathToKey pf root (Str p) = Inr key"
  by (simp add: localPathToKey_def Let_def)

lemma read_attempts_append [simp]: "read_attempts (xs @ ys) = read_attempts xs + read_attempts ys"
  by (simp add: read_attempts_def)

lemma delete_attempts_append [simp]:
  "delete_attempts (xs @ ys) = delete_attempts xs + delete_attempts ys"
  by (simp add: delete_attempts_def)

lemma failed_attempts_append [simp]:
  "failed_attempts (xs @ ys) = failed_attempts xs @ failed_attempts ys"
  by (simp add: failed_attempts_def)

lemma waits_append [simp]: "waits (xs @ ys) = waits xs @ waits ys"
  by (simp add: waits_def)

lemma upload_try_fails:
  assumes "readFile w n p = None \<or> \<not> send_ok w n key"
  shows "\<exists>evs. upload_try cfg w p key n = (evs, False) \<and> read_attempts evs = 1
           \<and> failed_attempts evs = [] \<and> waits evs = []"
  using assms
  by (auto simp: upload_try_def Let_def read_attempts_def failed_attempts_def waits_def
           split: option.splits)

lemma delete_try_fails:
  assumes "\<not> send_ok w n key"
  shows "\<exists>evs. delete_try cfg w key n = (evs, False) \<and> delete_attempts evs = 1
           \<and> failed_attempts evs = [] \<and> waits evs = []"
  using assms
  by (auto simp: delete_try_def Let_def delete_attempts_def failed_attempts_def waits_def)

text \<open>The three ways an attempt of \<open>uploadFile\<close> ends.\<close>

lemma uploadFile_success:
  assumes "localPathToKey pf (LOCAL_DIR cfg) (Str p) = Inr key"
    and "upload_try cfg w p key a = (evs, True)"
  shows "uploadFile pf cfg w p a = (evs, Inr ())"
  using assms by (simp add: uploadFile.simps [of pf cfg w p a])

lemma uploadFile_retry:
  assumes "localPathToKey pf (LOCAL_DIR cfg) (Str p) = Inr key"
    and "upload_try cfg w p key a = (evs, False)"
    and "int a < RETRY_LIMIT cfg"
  shows "uploadFile pf cfg w p a =
           (evs @ [LogUploadError key a, LogRetrying key (200 * 2 ^ a), SetTimeout (200 * 2 ^ a)]
                @ fst (uploadFile pf cfg w p (a + 1)),
            snd (uploadFile pf cfg w p (a + 1)))"
  using assms
  by (cases "uploadFile pf cfg w p (a + 1)")
     (simp add: uploadFile.simps [of pf cfg w p a] Let_def)

lemma uploadFile_abandon:
  assumes "localPathToKey pf (LOCAL_DIR cfg) (Str p) = Inr key"
    and "upload_try cfg w p key a = (evs, False)"
    and "\<not> int a < RETRY_LIMIT cfg"
  shows "uploadFile pf cfg w p a = (evs @ [LogUploadError key a, LogFailed key], Inr ())"
  using assms by (simp add: uploadFile.simps [of pf cfg w p a])


lemma uploadFile_resolves: "snd (uploadFile pf cfg w p a) = Inr ()"
proof (induction "nat (RETRY_LIMIT cfg - int a)" arbitrary: a rule: less_induct)
  case less
  obtain key where k: "localPathToKey pf (LOCAL_DIR cfg) (Str p) = Inr key"
    using localPathToKey_Str by blast
  obtain evs ok where t: "upload_try cfg w p key a = (evs, ok)"
    by (cases "upload_try cfg w p key a")
  show ?case
  proof (cases "\<not> ok \<and> int a < RETRY_LIMIT cfg")
    case True
    then have "snd (uploadFile pf cfg w p (a + 1)) = Inr ()"
      by (intro less) auto
    with True k t show ?thesis
      by (simp add: uploadFile_retry)
  next
    case False
    with k t show ?thesis
      by (cases ok) (simp_all add: uploadFile_success uploadFile_abandon)
  qed
qed

lemma upload_fail_terminal:
  assumes k: "localPathToKey pf (LOCAL_DIR cfg) (Str p) = Inr key"
    and f: "\<forall>n. readFile w n p = None \<or> \<not> send_ok w n key"
  shows "\<exists>evs. fst (uploadFile pf cfg w p a) = evs @ [LogFailed key]"
proof (induction "nat (RETRY_LIMIT cfg - int a)" arbitrary: a rule: less_induct)
  case less
  obtain evs where t: "upload_try cfg w p key a = (evs, False)"
    using upload_try_fails f by blast
  show ?case
  proof (cases "int a < RETRY_LIMIT cfg")
    case True
    then have "\<exists>evs. fst (uploadFile pf cfg w p (a + 1)) = evs @ [LogFailed key]"
      by (intro less) auto
    then obtain evs' where "fst (uploadFile pf cfg w p (a + 1)) = evs' @ [LogFailed key]"
      by blast
    then show ?thesis
      by (simp add: uploadFile_retry [OF k t True])
  next
    case False
    show ?thesis
      by (simp add: uploadFile_abandon [OF k t False])
  qed
qed

text \<open>The same for \<open>deleteKey\<close>.\<close>

lemma deleteKey_success:
  assumes "localPathToKey pf (LOCAL_DIR cfg) (Str p) = Inr key"
    and "delete_try cfg w key a = (evs, True)"
  shows "deleteKey pf cfg w p a = (evs, Inr ())"
  using assms by (simp add: deleteKey.simps [of pf cfg w p a])

lemma deleteKey_retry:
  assumes "localPathToKey pf (LOCAL_DIR cfg) (Str p) = Inr key"
    and "delete_try cfg w key a = (evs, False)"
    and "int a < RETRY_LIMIT cfg"
  shows "deleteKey pf cfg w p a =
           (evs @ [LogDeleteError key a, SetTimeout (200 * 2 ^ a)]
                @ fst (deleteKey pf cfg w p (a + 1)),
            snd (deleteKey pf cfg w p (a + 1)))"
  using assms
  by (cases "deleteKey pf cfg w p (a + 1)")
     (simp add: deleteKey.simps [of pf cfg w p a] Let_def)

lemma deleteKey_abandon:
  assumes "localPathToKey pf (LOCAL_DIR cfg) (Str p) = Inr key"
    and "delete_try cfg w key a = (evs, False)"
    and "\<not> int a < RETRY_LIMIT cfg"
  shows "deleteKey pf cfg w p a = (evs @ [LogDeleteError key a, LogDeleteFailed key], Inr ())"
  using assms by (simp add: deleteKey.simps [of pf cfg w p a])


lemma deleteKey_resolves: "snd (deleteKey pf cfg w p a) = Inr ()"
proof (induction "nat (RETRY_LIMIT cfg - int a)" arbitrary: a rule: less_induct)
  case less
  obtain key where k: "localPathToKey pf (LOCAL_DIR cfg) (Str p) = Inr key"
    using localPathToKey_Str by blast
  obtain evs ok where t: "delete_try cfg w key a = (evs, ok)"
    by (cases "delete_try cfg w key a")
  show ?case
  proof (cases "\<not> ok \<and> int a < RETRY_LIMIT cfg")
    case True
    then have "snd (deleteKey pf cfg w p (a + 1)) = Inr ()"
      by (intro less) auto
    with True k t show ?thesis
      by (simp add: deleteKey_retry)
  next
    case False
    with k t show ?thesis
      by (cases ok) (simp_all add: deleteKey_success deleteKey_abandon)
  qed
qed

lemma delete_fail_terminal:
  assumes k: "localPathToKey pf (LOCAL_DIR cfg) (Str p) = Inr key"
    and f: "\<forall>n. \<not> send_ok w n key"
  shows "\<exists>evs. fst (deleteKey pf cfg w p a) = evs @ [LogDeleteFailed key]"
proof (induction "nat (RETRY_LIMIT cfg - int a)" arbitrary: a rule: less_induct)
  case less
  obtain evs where t: "delete_try cfg w key a = (evs, False)"
    using delete_try_fails f by blast
  show ?case
  proof (cases "int a < RETRY_LIMIT cfg")
    case True
    then have "\<exists>evs. fst (deleteKey pf cfg w p (a + 1)) = evs @ [LogDeleteFailed key]"
      by (intro less) auto
    then obtain evs' where "fst (deleteKey pf cfg w p (a + 1)) = evs' @ [LogDeleteFailed key]"
      by blast
    then show ?thesis
      by (simp add: deleteKey_retry [OF k t True])
  next
    case False
    show ?thesis
      by (simp add: deleteKey_abandon [OF k t False])
  qed
qed

section \<open>Retrying operation executor: properties\<close>






text \<open>
  Claim C3. Whatever the path, the attempt counter and the failures of the read and of
  the remote calls, \<open>uploadFile\<close> and \<open>deleteKey\<close> return normally (their promise
  resolves: the functions are total and their result is never an exception); and when
  every attempt fails, the last thing they do is to log the failure of that key.
\<close>

theorem executor_error_containment:
  "snd (uploadFile pf cfg w p attempt) = Inr ()
   \<and> snd (deleteKey pf cfg w p attempt) = Inr ()
   \<and> (\<forall>key. localPathToKey pf (LOCAL_DIR cfg) (Str p) = Inr key \<longrightarrow>
          ((\<forall>n. readFile w n p = None \<or> \<not> send_ok w n key) \<longrightarrow>
             (\<exists>evs. fst (uploadFile pf cfg w p attempt) = evs @ [LogFailed key]))
        \<and> ((\<forall>n. \<not> send_ok w n key) \<longrightarrow>
             (\<exists>evs. fst (deleteKey pf cfg w p attempt) = evs @ [LogDeleteFailed key])))"
proof (intro conjI allI impI)
  show "snd (uploadFile pf cfg w p attempt) = Inr ()"
    by (rule uploadFile_resolves)
  show "snd (deleteKey pf cfg w p attempt) = Inr ()"
    by (rule deleteKey_resolves)
next
  fix key
  assume "localPathToKey pf (LOCAL_DIR cfg) (Str p) = Inr key"
    and "\<forall>n. readFile w n p = None \<or> \<not> send_ok w n key"
  then show "\<exists>evs. fst (uploadFile pf cfg w p attempt) = evs @ [LogFailed key]"
    by (rule upload_fail_terminal)
next
  fix key
  assume "localPathToKey pf (LOCAL_DIR cfg) (Str p) = Inr key"
    and "\<forall>n. \<not> send_ok w n key"
  then show "\<exists>evs. fst (deleteKey pf cfg w p attempt) = evs @ [LogDeleteFailed key]"
    by (rule delete_fail_terminal)
qed

text \<open>The theorem at a file whose read is rejected at every attempt.\<close>

theorem executor_error_containment_witness:
  "localPathToKey (posix home) (LOCAL_DIR default_config) (Str ''pdf/gone.pdf'') = Inr ''gone.pdf''
   \<and> (\<forall>n. readFile unreadable_files n ''pdf/gone.pdf'' = None)
   \<and> (\<forall>n. \<not> send_ok rejecting_store n ''gone.pdf'')
   \<and> snd (uploadFile (posix home) default_config unreadable_files ''pdf/gone.pdf'' 1) = Inr ()
   \<and> (\<exists>evs. fst (uploadFile (posix home) default_config unreadable_files ''pdf/gone.pdf'' 1)
              = evs @ [LogFailed ''gone.pdf''])
   \<and> snd (deleteKey (posix home) default_config rejecting_store ''pdf/gone.pdf'' 1) = Inr ()
   \<and> (\<exists>evs. fst (deleteKey (posix home) default_config rejecting_store ''pdf/gone.pdf'' 1)
              = evs @ [LogDeleteFailed ''gone.pdf''])"
proof -
  have k: "localPathToKey (posix home) (LOCAL_DIR default_config) (Str ''pdf/gone.pdf'')
             = Inr ''gone.pdf''"
    by code_simp
  have f: "\<forall>n. readFile unreadable_files n ''pdf/gone.pdf'' = None"
    by (simp add: unreadable_files_def)
  have g: "\<forall>n. \<not> send_ok rejecting_store n ''gone.pdf''"
    by (simp add: rejecting_store_def)
  from executor_error_containment
         [of "posix home" default_config unreadable_files "''pdf/gone.pdf''" 1]
       executor_error_containment
         [of "posix home" default_config rejecting_store "''pdf/gone.pdf''" 1]
       k f g
  show ?thesis by simp
qed

section \<open>Reconciliation walker: auxiliary facts\<close>

lemma walk_readable:
  "\<not> unreadable l \<Longrightarrow> walk pf dir l files = Inr (files @ walk_spec pf [''.pdf''] dir l)"
  "\<not> unreadable_in entries \<Longrightarrow>
     walk_entries pf dir entries files
       = Inr (files @ map fst (filter (\<lambda>fn. eligible pf [''.pdf''] (snd fn))
                                      (regular_files_in pf dir entries)))"
  by (induction pf dir l files and pf dir entries files rule: walk_walk_entries.induct)
     (simp_all add: walk_spec_def eligible_def Let_def)

lemma walk_unreadable:
  "unreadable l \<Longrightarrow> \<exists>e. walk pf dir l files = Inl e"
  "unreadable_in entries \<Longrightarrow> \<exists>e. walk_entries pf dir entries files = Inl e"
proof (induction pf dir l files and pf dir entries files rule: walk_walk_entries.induct)
  case (4 pf dir name sub rest files)
  show ?case
  proof (cases "unreadable sub")
    case True
    with 4 show ?thesis by (auto simp: Let_def)
  next
    case False
    with 4 show ?thesis by (auto simp: Let_def walk_readable)
  qed
qed (auto simp: Let_def)

lemma walk_fails_iff: "isl (walk pf dir l files) \<longleftrightarrow> unreadable l"
proof (cases "unreadable l")
  case True
  then show ?thesis using walk_unreadable(1) [of l pf dir files] by auto
next
  case False
  then show ?thesis by (simp add: walk_readable)
qed

lemma initialSync_unreadable:
  assumes "unreadable (root_listing fs)"
  shows "\<exists>e. initialSync pf cfg fs worlds sched L = ([], Rejected e)"
proof -
  obtain e where "walk pf (LOCAL_DIR cfg) (root_listing fs) [] = Inl e"
    using walk_unreadable(1) [OF assms] by blast
  then show ?thesis by (simp add: initialSync_def)
qed

lemma main_unreadable:
  assumes "unreadable (root_listing fs)"
  shows "fst (main pf cfg fs worlds sched) = [Exit 1]
       \<or> fst (main pf cfg fs worlds sched) = [Uncaught TypeError]
       \<or> (\<exists>e. fst (main pf cfg fs worlds sched) = [FatalError e, Exit 1])"
proof (cases "pLimit (CONCURRENCY cfg) :: error + (nat \<times> task) limiter")
  case (Inl e)
  then have "e = TypeError" by (auto simp: pLimit_def split: if_splits)
  with Inl show ?thesis by (simp add: main_def)
next
  case (Inr L)
  obtain e where "initialSync pf cfg fs worlds sched L = ([], Rejected e)"
    using initialSync_unreadable [OF assms] by blast
  with Inr show ?thesis by (simp add: main_def)
qed

section \<open>Reconciliation walker: properties\<close>

text \<open>
  Claim C6, as stated, fails: with a subdirectory that cannot be read next to an eligible
  file, the walk of the spec skips the subdirectory and produces the file, while
  \<open>walk\<close> fails and produces nothing.
\<close>

theorem unreadable_subdirectory_aborts_walk:
  "walk (posix home) ''./pdf'' (Entries [Directory ''locked'' Unreadable, RegFile ''a.pdf'']) []
     = Inl (ReaddirError ''pdf/locked'')
   \<and> walk_spec (posix home) [''.pdf''] ''./pdf''
        (Entries [Directory ''locked'' Unreadable, RegFile ''a.pdf'']) = [''pdf/a.pdf'']"
  by code_simp

text \<open>
  Claim C6, amended. A read error on any directory aborts the whole walk: \<open>walk\<close>
  fails exactly when some directory of the tree cannot be read, and then no file is
  submitted for upload and the watcher is never attached; the process ends with the
  fatal error.
\<close>

theorem walk_aborts_on_read_error:
  "(isl (walk pf dir l files) \<longleftrightarrow> unreadable l)
   \<and> (unreadable (root_listing fs) \<longrightarrow>
        (\<forall>ev \<in> set (fst (main pf cfg fs worlds sched)).
            ev \<noteq> WatcherAttached \<and> (\<forall>i t. ev \<noteq> Scheduled i t)))"
proof (intro conjI impI)
  show "isl (walk pf dir l files) \<longleftrightarrow> unreadable l"
    by (rule walk_fails_iff)
next
  assume "unreadable (root_listing fs)"
  from main_unreadable [OF this, of pf cfg worlds sched]
  show "\<forall>ev \<in> set (fst (main pf cfg fs worlds sched)).
            ev \<noteq> WatcherAttached \<and> (\<forall>i t. ev \<noteq> Scheduled i t)"
    by auto
qed

text \<open>The theorem at the tree above, with the default settings.\<close>

theorem walk_aborts_on_read_error_witness:
  "unreadable (Entries [Directory ''locked'' Unreadable, RegFile ''a.pdf''])
   \<and> isl (walk (posix home) ''./pdf'' (Entries [Directory ''locked'' Unreadable, RegFile ''a.pdf'']) [])
   \<and> fst (main (posix home) default_config
             \<lparr> root_readable = True,
               root_listing = Entries [Directory ''locked'' Unreadable, RegFile ''a.pdf''] \<rparr>
             (\<lambda>i. rejecting_store) (\<lambda>step. 0))
       = [FatalError (ReaddirError ''pdf/locked''), Exit 1]
   \<and> WatcherAttached \<notin> set (fst (main (posix home) default_config
             \<lparr> root_readable = True,
               root_listing = Entries [Directory ''locked'' Unreadable, RegFile ''a.pdf''] \<rparr>
             (\<lambda>i. rejecting_store) (\<lambda>step. 0)))"
proof -
  let ?l = "Entries [Directory ''locked'' Unreadable, RegFile ''a.pdf'']"
  let ?fs = "\<lparr> root_readable = True, root_listing = ?l \<rparr>"
  have u: "unreadable ?l" by simp
  have m: "fst (main (posix home) default_config ?fs (\<lambda>i. rejecting_store) (\<lambda>step. 0))
             = [FatalError (ReaddirError ''pdf/locked''), Exit 1]"
    by code_simp
  from walk_aborts_on_read_error
         [of "posix home" "''./pdf''" ?l "[]" ?fs default_config "\<lambda>i. rejecting_store" "\<lambda>step. 0"]
       u m
  show ?thesis by simp
qed

text \<open>
  Claim C7, as stated, fails: the accepted extensions are no setting. No configuration
  makes \<open>walk\<close> agree with the walker of the spec when its filter is \<^verbatim>\<open>.txt\<close>: a
  file \<^verbatim>\<open>notes.txt\<close> is never produced.
\<close>

theorem extension_filter_not_configurable:
  "\<not> (\<exists>cfg. walk (posix home) (LOCAL_DIR cfg) (Entries [RegFile ''notes.txt'']) []
              = Inr (walk_spec (posix home) [''.txt''] (LOCAL_DIR cfg)
                       (Entries [RegFile ''notes.txt''])))"
proof -
  have "toLowerCase (posix_extname ''notes.txt'') = ''.txt''"
    by code_simp
  then show ?thesis
    by (simp add: walk_spec_def eligible_def posix_def)
qed

text \<open>
  Claim C7, amended. The eligibility filter is fixed in the code: whatever the settings,
  a walk that meets no read error produces exactly the regular files under the root whose
  extension, lowercased, is \<^verbatim>\<open>.pdf\<close>, that is, the files of the walker of the spec
  with the filter set to that one extension.
\<close>

theorem walker_filter_fixed_to_pdf:
  "\<not> unreadable l \<Longrightarrow>
     walk pf (LOCAL_DIR cfg) l [] = Inr (walk_spec pf [''.pdf''] (LOCAL_DIR cfg) l)"
  by (simp add: walk_readable)

theorem walker_filter_fixed_to_pdf_witness:
  "\<not> unreadable (Entries [RegFile ''notes.txt'', Directory ''sub'' (Entries [RegFile ''b.pdf''])])
   \<and> walk (posix home) (LOCAL_DIR default_config)
        (Entries [RegFile ''notes.txt'', Directory ''sub'' (Entries [RegFile ''b.pdf''])]) []
       = Inr [''pdf/sub/b.pdf'']
   \<and> walk_spec (posix home) [''.pdf''] (LOCAL_DIR default_config)
        (Entries [RegFile ''notes.txt'', Directory ''sub'' (Entries [RegFile ''b.pdf''])])
       = [''pdf/sub/b.pdf'']"
proof -
  let ?l = "Entries [RegFile ''notes.txt'', Directory ''sub'' (Entries [RegFile ''b.pdf''])]"
  have r: "\<not> unreadable ?l" by simp
  have s: "walk_spec (posix home) [''.pdf''] (LOCAL_DIR default_config) ?l = [''pdf/sub/b.pdf'']"
    by code_simp
  from walker_filter_fixed_to_pdf [OF r, of "posix home" default_config] r s
  show ?thesis by simp
qed

text \<open>
  Claim C10. In a walk that meets no read error, a path is selected exactly when it is
  the path of a regular file whose extension, lowercased, is \<^verbatim>\<open>.pdf\<close>; the
  extensions \<^verbatim>\<open>.PDF\<close> and \<^verbatim>\<open>.Pdf\<close> are such.
\<close>

theorem walker_extension_case_insensitive:
  "(\<not> unreadable l \<longrightarrow>
      (\<exists>files. walk pf dir l [] = Inr files
         \<and> (\<forall>full. full \<in> set files \<longleftrightarrow>
               (\<exists>name. (full, name) \<in> set (regular_files pf dir l)
                     \<and> toLowerCase (extname pf name) = ''.pdf''))))
   \<and> toLowerCase (extname (posix cwd) ''REPORT.PDF'') = ''.pdf''
   \<and> toLowerCase (extname (posix cwd) ''scan.Pdf'') = ''.pdf''"
proof (intro conjI impI)
  assume "\<not> unreadable l"
  then have "walk pf dir l [] = Inr (walk_spec pf [''.pdf''] dir l)"
    by (simp add: walk_readable)
  moreover have "\<forall>full. full \<in> set (walk_spec pf [''.pdf''] dir l) \<longleftrightarrow>
               (\<exists>name. (full, name) \<in> set (regular_files pf dir l)
                     \<and> toLowerCase (extname pf name) = ''.pdf'')"
    by (force simp: walk_spec_def eligible_def)
  ultimately show "\<exists>files. walk pf dir l [] = Inr files
         \<and> (\<forall>full. full \<in> set files \<longleftrightarrow>
               (\<exists>name. (full, name) \<in> set (regular_files pf dir l)
                     \<and> toLowerCase (extname pf name) = ''.pdf''))"
    by blast
next
  have "toLowerCase (posix_extname ''REPORT.PDF'') = ''.pdf''" by code_simp
  then show "toLowerCase (extname (posix cwd) ''REPORT.PDF'') = ''.pdf''"
    by (simp add: posix_def)
next
  have "toLowerCase (posix_extname ''scan.Pdf'') = ''.pdf''" by code_simp
  then show "toLowerCase (extname (posix cwd) ''scan.Pdf'') = ''.pdf''"
    by (simp add: posix_def)
qed

text \<open>
  The theorem at a tree with upper-case and mixed-case extensions, another extension, a
  name that is only an extension, and an entry that is not a regular file.
\<close>

theorem walker_extension_case_insensitive_witness:
  "\<not> unreadable (Entries [RegFile ''REPORT.PDF'', RegFile ''notes.txt'', RegFile ''.pdf'',
                          OtherEntry ''link.pdf'',
                          Directory ''scans'' (Entries [RegFile ''scan.Pdf''])])
   \<and> walk (posix home) ''./pdf''
        (Entries [RegFile ''REPORT.PDF'', RegFile ''notes.txt'', RegFile ''.pdf'',
                  OtherEntry ''link.pdf'',
                  Directory ''scans'' (Entries [RegFile ''scan.Pdf''])]) []
       = Inr [''pdf/REPORT.PDF'', ''pdf/scans/scan.Pdf'']
   \<and> (''pdf/REPORT.PDF'', ''REPORT.PDF'')
        \<in> set (regular_files (posix home) ''./pdf''
        (Entries [RegFile ''REPORT.PDF'', RegFile ''notes.txt'', RegFile ''.pdf'',
                  OtherEntry ''link.pdf'',
                  Directory ''scans'' (Entries [RegFile ''scan.Pdf''])]))"
proof -
  let ?l = "Entries [RegFile ''REPORT.PDF'', RegFile ''notes.txt'', RegFile ''.pdf'',
                  OtherEntry ''link.pdf'',
                  Directory ''scans'' (Entries [RegFile ''scan.Pdf''])]"
  have r: "\<not> unreadable ?l" by simp
  have w: "walk (posix home) ''./pdf'' ?l [] = Inr [''pdf/REPORT.PDF'', ''pdf/scans/scan.Pdf'']"
    by code_simp
  have m: "(''pdf/REPORT.PDF'', ''REPORT.PDF'') \<in> set (regular_files (posix home) ''./pdf'' ?l)"
    by code_simp
  from walker_extension_case_insensitive [of ?l "posix home" "''./pdf''" home] r w m
  show ?thesis by simp
qed

section \<open>Dispatch limiter: properties\<close>

text \<open>
  What every step of the limiter preserves: no more than \<open>concurrency\<close> tasks execute,
  and none waits in the queue while a slot is free.
\<close>

lemma admit_next_fields:
  "concurrency (admit_next L) = concurrency L"
  "length (active (admit_next L)) = (if queue L = [] then length (active L) else length (active L) + 1)"
  "queue (admit_next L) = tl (queue L)"
  by (auto simp: admit_next_def split: list.splits)

lemma admit_next_fifo: "admitted (admit_next L) @ queue (admit_next L) = admitted L @ queue L"
  by (auto simp: admit_next_def split: list.splits)

lemma length_remove1_active:
  "t \<in> set xs \<Longrightarrow> length (remove1 t xs) + 1 = length xs"
  using length_pos_if_in_set [of t xs] by (simp add: length_remove1)

lemma limiter_step_concurrency: "concurrency (limiter_step e L) = concurrency L"
  by (cases e) (auto simp: limit_def settle_def Let_def admit_next_fields)

lemma limiter_step_fifo:
  "admitted (limiter_step e L) @ queue (limiter_step e L)
     = admitted L @ queue L @ (case e of Schedule t \<Rightarrow> [t] | Settle _ \<Rightarrow> [])"
  using admit_next_fifo [of "L\<lparr>queue := queue L @ [t]\<rparr>" for t]
        admit_next_fifo [of "L\<lparr>active := remove1 t (active L)\<rparr>" for t]
  by (cases e) (simp_all add: limit_def settle_def Let_def)

lemma limiter_step_bound:
  assumes "int (length (active L)) \<le> concurrency L"
    and "queue L \<noteq> [] \<longrightarrow> int (length (active L)) = concurrency L"
  shows "int (length (active (limiter_step e L))) \<le> concurrency L
       \<and> (queue (limiter_step e L) \<noteq> [] \<longrightarrow>
            int (length (active (limiter_step e L))) = concurrency L)"
proof (cases e)
  case (Schedule t)
  with assms show ?thesis
    by (cases "queue L") (auto simp: limit_def Let_def admit_next_fields)
next
  case (Settle t)
  show ?thesis
  proof (cases "t \<in> set (active L)")
    case True
    then have "length (remove1 t (active L)) + 1 = length (active L)"
      by (rule length_remove1_active)
    with assms Settle True show ?thesis
      by (cases "queue L") (auto simp: settle_def admit_next_fields)
  next
    case False
    with assms Settle show ?thesis by (simp add: settle_def)
  qed
qed

lemma limiter_run_invariant:
  assumes "int (length (active L)) \<le> concurrency L"
    and "queue L \<noteq> [] \<longrightarrow> int (length (active L)) = concurrency L"
  shows "int (limiter_peak evs L) \<le> concurrency L
       \<and> int (length (active (limiter_run evs L))) \<le> concurrency L
       \<and> (queue (limiter_run evs L) \<noteq> [] \<longrightarrow>
            int (length (active (limiter_run evs L))) = concurrency L)
       \<and> admitted (limiter_run evs L) @ queue (limiter_run evs L)
           = admitted L @ queue L @ scheduled evs"
  using assms
proof (induction evs arbitrary: L)
  case Nil
  then show ?case by (simp add: limiter_run_def scheduled_def)
next
  case (Cons e evs)
  note b = limiter_step_bound [OF Cons.prems, of e]
  have c: "concurrency (limiter_step e L) = concurrency L"
    by (rule limiter_step_concurrency)
  from b c have "int (limiter_peak evs (limiter_step e L)) \<le> concurrency L
       \<and> int (length (active (limiter_run evs (limiter_step e L)))) \<le> concurrency L
       \<and> (queue (limiter_run evs (limiter_step e L)) \<noteq> [] \<longrightarrow>
            int (length (active (limiter_run evs (limiter_step e L)))) = concurrency L)
       \<and> admitted (limiter_run evs (limiter_step e L)) @ queue (limiter_run evs (limiter_step e L))
           = admitted (limiter_step e L) @ queue (limiter_step e L) @ scheduled evs"
    using Cons.IH [of "limiter_step e L"] by simp
  moreover have "scheduled (e # evs) = (case e of Schedule t \<Rightarrow> [t] | Settle _ \<Rightarrow> []) @ scheduled evs"
    by (simp add: scheduled_def)
  moreover have "limiter_run (e # evs) L = limiter_run evs (limiter_step e L)"
    by (simp add: limiter_run_def)
  moreover have "int (max (length (active L)) (limiter_peak evs (limiter_step e L)))
                   \<le> concurrency L
                 \<longleftrightarrow> int (length (active L)) \<le> concurrency L
                   \<and> int (limiter_peak evs (limiter_step e L)) \<le> concurrency L"
    by auto
  ultimately show ?case
    using Cons.prems(1) limiter_step_fifo [of e L]
    by simp
qed

text \<open>
  Claim C9. For a limiter made by \<open>pLimit n\<close> and every history of scheduled and
  settling tasks, the number of tasks executing never exceeds \<open>n\<close>, at any moment of the
  history; the tasks begin in the order in which they were scheduled; and a task waits in
  the queue only while \<open>n\<close> tasks are executing.
\<close>

theorem limiter_bound_and_fifo:
  assumes "pLimit n = Inr L"
  shows "int (limiter_peak evs L) \<le> n
       \<and> admitted (limiter_run evs L) @ queue (limiter_run evs L) = scheduled evs
       \<and> (queue (limiter_run evs L) \<noteq> [] \<longrightarrow> int (length (active (limiter_run evs L))) = n)"
proof -
  from assms have L: "L = \<lparr> concurrency = n, active = [], queue = [], admitted = [] \<rparr>" and n: "1 \<le> n"
    by (auto simp: pLimit_def split: if_splits)
  from n have "int (length (active L)) \<le> concurrency L"
    and "queue L \<noteq> [] \<longrightarrow> int (length (active L)) = concurrency L"
    by (simp_all add: L)
  from limiter_run_invariant [OF this, of evs] show ?thesis
    by (simp add: L)
qed

text \<open>
  The theorem with four slots: a hundred tasks scheduled at once, and a history in which
  tasks settle while others wait.
\<close>

theorem limiter_bound_and_fifo_witness:
  "pLimit 4 = Inr \<lparr> concurrency = 4, active = [], queue = [], admitted = [] :: nat list \<rparr>
   \<and> limiter_peak hundred_tasks
        \<lparr> concurrency = 4, active = [], queue = [], admitted = [] \<rparr> \<le> 4
   \<and> limiter_run [Schedule 0, Schedule 1, Schedule 2, Schedule 3, Schedule 4, Schedule 5,
                   Settle 2, Settle 0]
        \<lparr> concurrency = 4, active = [], queue = [], admitted = [] :: nat list \<rparr>
       = \<lparr> concurrency = 4, active = [1, 3, 4, 5], queue = [], admitted = [0, 1, 2, 3, 4, 5] \<rparr>
   \<and> limiter_peak [Schedule 0, Schedule 1, Schedule 2, Schedule 3, Schedule 4, Schedule 5,
                    Settle 2, Settle 0]
        \<lparr> concurrency = 4, active = [], queue = [], admitted = [] :: nat list \<rparr> = 4"
proof -
  let ?L = "\<lparr> concurrency = 4, active = [], queue = [], admitted = [] :: nat list \<rparr>"
  have p: "pLimit 4 = Inr ?L"
    by (simp add: pLimit_def)
  have r: "limiter_run [Schedule 0, Schedule 1, Schedule 2, Schedule 3, Schedule 4, Schedule 5,
                        Settle 2, Settle 0] ?L
       = \<lparr> concurrency = 4, active = [1, 3, 4, 5], queue = [], admitted = [0, 1, 2, 3, 4, 5] \<rparr>"
    by (simp add: limiter_run_def limit_def settle_def admit_next_def)
  have k: "limiter_peak [Schedule 0, Schedule 1, Schedule 2, Schedule 3, Schedule 4, Schedule 5,
                    Settle 2, Settle 0] ?L = 4"
    by (simp add: limit_def settle_def admit_next_def)
  from limiter_bound_and_fifo [OF p, of hundred_tasks]
  have "limiter_peak hundred_tasks ?L \<le> 4" by simp
  with p r k show ?thesis by blast
qed

section \<open>Event debouncer: auxiliary facts\<close>

lemma on_notification_scheduleOp:
  "on_notification pf cfg n s = scheduleOp pf cfg (notification_type n) (notification_path n) s"
  by (cases n) simp_all

lemma distinct_same_image:
  "distinct (map f xs) \<Longrightarrow> \<forall>x\<in>set xs. f x = c \<Longrightarrow> length xs \<le> 1"
proof (cases xs)
  case Nil
  then show ?thesis by simp
next
  case (Cons x ys)
  assume "distinct (map f xs)" and "\<forall>x\<in>set xs. f x = c"
  with Cons show ?thesis by (cases ys) auto
qed

lemma debounce_inv_pending:
  assumes "debounce_inv s"
  shows "length (pending s key) \<le> 1"
proof -
  from assms have "distinct (map timer_id (pending s key))"
    by (simp add: debounce_inv_def pending_def distinct_map_filter)
  moreover from assms have "\<forall>t\<in>set (pending s key). timer_id t = the (debounceMap s key)"
    by (auto simp: debounce_inv_def pending_def)
  ultimately show ?thesis by (rule distinct_same_image)
qed

lemma fold_timer_callback:
  "timers (fold timer_callback ts s) = timers s"
  "next_timer (fold timer_callback ts s) = next_timer s"
  "clock (fold timer_callback ts s) = clock s"
  "debounceMap (fold timer_callback ts s) k
     = (if k \<in> op_key ` set ts then None else debounceMap s k)"
  by (induction ts arbitrary: s) (auto simp: timer_callback_def Let_def)

lemma advance_fields:
  "timers (advance T s) = filter (\<lambda>t. \<not> due t \<le> T) (timers s)"
  "next_timer (advance T s) = next_timer s"
  "clock (advance T s) = max (clock s) T"
  "debounceMap (advance T s) k
     = (if k \<in> op_key ` {t \<in> set (timers s). due t \<le> T} then None else debounceMap s k)"
  by (auto simp: advance_def Let_def fold_timer_callback)

lemma debounce_inv_advance:
  assumes "debounce_inv s"
  shows "debounce_inv (advance T s)"
proof -
  have "debounceMap s (op_key t) = debounceMap (advance T s) (op_key t)"
    if t: "t \<in> set (timers s)" "\<not> due t \<le> T" for t
  proof -
    have "op_key t \<notin> op_key ` {t \<in> set (timers s). due t \<le> T}"
    proof
      assume "op_key t \<in> op_key ` {t \<in> set (timers s). due t \<le> T}"
      then obtain u where u: "u \<in> set (timers s)" "due u \<le> T" "op_key u = op_key t" by auto
      from assms u(1) have "debounceMap s (op_key u) = Some (timer_id u)"
        by (simp add: debounce_inv_def)
      moreover from assms t(1) have "debounceMap s (op_key t) = Some (timer_id t)"
        by (simp add: debounce_inv_def)
      ultimately have "timer_id u = timer_id t"
        using u(3) by (metis option.inject)
      with u t assms have "u = t" by (auto simp: debounce_inv_def distinct_map inj_on_def)
      with u t show False by simp
    qed
    then show ?thesis by (simp add: advance_fields)
  qed
  with assms show ?thesis
    by (auto simp: debounce_inv_def advance_fields(1,2) distinct_map_filter)
qed

lemma debounce_inv_scheduleOp:
  assumes "debounce_inv s"
  shows "debounce_inv (scheduleOp pf cfg type p s)"
proof -
  obtain key where k: "localPathToKey pf (LOCAL_DIR cfg) (Str p) = Inr key"
    using localPathToKey_Str by blast
  define s1 where "s1 = (case debounceMap s key of Some existing \<Rightarrow> clearTimeout existing s | None \<Rightarrow> s)"
  have s1: "set (timers s1) \<subseteq> set (timers s)" "distinct (map timer_id (timers s1))"
      "next_timer s1 = next_timer s" "debounceMap s1 = debounceMap s"
    using assms
    by (auto simp: s1_def clearTimeout_def debounce_inv_def distinct_map_filter split: option.splits)
  have nokey: "op_key t \<noteq> key" if "t \<in> set (timers s1)" for t
    using that assms
    by (auto simp: s1_def clearTimeout_def debounce_inv_def split: option.splits)
  have e: "scheduleOp pf cfg type p s =
          s1\<lparr> timers := timers s1 @ [\<lparr> timer_id = next_timer s1, due = clock s1 + timeout_delay (DEBOUNCE_MS cfg),
                                     op_type = type, op_path = p, op_key = key \<rparr>],
              next_timer := next_timer s1 + 1,
              debounceMap := (debounceMap s1)(key \<mapsto> next_timer s1) \<rparr>"
    by (simp add: scheduleOp_def k s1_def Let_def)
  show ?thesis
    unfolding e using s1 nokey assms
    by (fastforce simp: debounce_inv_def)
qed

lemma debounce_inv_init: "debounce_inv debouncer_init"
  by (simp add: debounce_inv_def debouncer_init_def)

lemma debounce_inv_deliver_all:
  "debounce_inv s \<Longrightarrow> debounce_inv (deliver_all pf cfg ns s)"
  unfolding deliver_all_def
  by (induction ns arbitrary: s)
     (simp_all add: deliver_def on_notification_scheduleOp debounce_inv_advance
                    debounce_inv_scheduleOp)

lemma timer_callback_tasks:
  "timer_callback t s =
     s\<lparr> debounceMap := (debounceMap s)(op_key t := None),
        submitted := submitted s @ timer_tasks t \<rparr>"
  by (simp add: timer_callback_def timer_tasks_def Let_def)

lemma fold_timer_callback_submitted:
  "submitted (fold timer_callback ts s) = submitted s @ concat (map timer_tasks ts)"
  by (induction ts arbitrary: s) (simp_all add: timer_callback_tasks)

lemma advance_submitted:
  "submitted (advance T s)
     = submitted s @ concat (map timer_tasks (sort_key due (filter (\<lambda>t. due t \<le> T) (timers s))))"
  by (simp add: advance_def Let_def fold_timer_callback_submitted)

lemma pending_advance: "pending (advance T s) key = filter (\<lambda>t. \<not> due t \<le> T) (pending s key)"
  by (simp add: pending_def advance_fields(1)) (metis (mono_tags, lifting) filter_cong)

lemma timer_tasks_key:
  assumes "localPathToKey pf (LOCAL_DIR cfg) (Str (op_path t)) = Inr (op_key t)"
  shows "filter (\<lambda>x. localPathToKey pf (LOCAL_DIR cfg) (Str (task_path x)) = Inr key) (timer_tasks t)
           = (if op_key t = key then timer_tasks t else [])"
  using assms by (auto simp: timer_tasks_def)

lemma filter_tasks_of_timers:
  assumes "\<forall>t\<in>set ts. localPathToKey pf (LOCAL_DIR cfg) (Str (op_path t)) = Inr (op_key t)"
  shows "filter (\<lambda>x. localPathToKey pf (LOCAL_DIR cfg) (Str (task_path x)) = Inr key)
                (concat (map timer_tasks ts))
           = concat (map timer_tasks (filter (\<lambda>t. op_key t = key) ts))"
  using assms by (induction ts) (simp_all add: timer_tasks_key)

lemma submitted_for_advance:
  assumes "debounce_keys pf cfg s"
  shows "submitted_for pf cfg key (advance T s)
           = submitted_for pf cfg key s
             @ concat (map timer_tasks (sort_key due (filter (\<lambda>t. due t \<le> T) (pending s key))))"
proof -
  let ?ex = "sort_key due (filter (\<lambda>t. due t \<le> T) (timers s))"
  from assms have "\<forall>t\<in>set ?ex. localPathToKey pf (LOCAL_DIR cfg) (Str (op_path t)) = Inr (op_key t)"
    by (simp add: debounce_keys_def)
  then have "filter (\<lambda>x. localPathToKey pf (LOCAL_DIR cfg) (Str (task_path x)) = Inr key)
                (concat (map timer_tasks ?ex))
           = concat (map timer_tasks (filter (\<lambda>t. op_key t = key) ?ex))"
    by (rule filter_tasks_of_timers)
  moreover have "filter (\<lambda>t. op_key t = key) ?ex
                   = sort_key due (filter (\<lambda>t. due t \<le> T) (pending s key))"
    by (simp add: filter_sort pending_def) (metis (mono_tags, lifting) filter_cong)
  ultimately show ?thesis
    by (simp add: submitted_for_def advance_submitted)
qed

lemma debounce_keys_armed:
  "debounce_keys pf cfg s \<Longrightarrow> debounceMap s key = Some i
     \<Longrightarrow> \<exists>t\<in>set (timers s). timer_id t = i \<and> op_key t = key"
  by (simp add: debounce_keys_def)

text \<open>What \<open>scheduleOp\<close> does to a state that satisfies the invariants.\<close>

lemma scheduleOp_effect:
  assumes inv: "debounce_inv s" "debounce_keys pf cfg s"
    and k: "localPathToKey pf (LOCAL_DIR cfg) (Str p) = Inr key"
  shows "scheduleOp pf cfg type p s =
           s\<lparr> timers := filter (\<lambda>t. op_key t \<noteq> key) (timers s)
                          @ [\<lparr> timer_id = next_timer s, due = clock s + timeout_delay (DEBOUNCE_MS cfg),
                               op_type = type, op_path = p, op_key = key \<rparr>],
              next_timer := next_timer s + 1,
              debounceMap := (debounceMap s)(key \<mapsto> next_timer s) \<rparr>"
proof (cases "debounceMap s key")
  case None
  with inv(1) have "\<forall>t\<in>set (timers s). op_key t \<noteq> key"
    by (auto simp: debounce_inv_def)
  then have "filter (\<lambda>t. op_key t \<noteq> key) (timers s) = timers s" by simp
  with None k show ?thesis by (simp add: scheduleOp_def Let_def)
next
  case (Some e)
  have "(timer_id t \<noteq> e) = (op_key t \<noteq> key)" if t: "t \<in> set (timers s)" for t
  proof
    assume ne: "timer_id t \<noteq> e"
    show "op_key t \<noteq> key"
    proof
      assume "op_key t = key"
      with t inv(1) Some have "timer_id t = e" by (auto simp: debounce_inv_def)
      with ne show False by simp
    qed
  next
    assume nk: "op_key t \<noteq> key"
    show "timer_id t \<noteq> e"
    proof
      assume e: "timer_id t = e"
      from debounce_keys_armed [OF inv(2) Some]
      obtain u where u: "u \<in> set (timers s)" "timer_id u = e" "op_key u = key"
        by blast
      with e t inv(1) have "u = t" by (auto simp: debounce_inv_def distinct_map inj_on_def)
      with u nk show False by simp
    qed
  qed
  then have "filter (\<lambda>t. timer_id t \<noteq> e) (timers s) = filter (\<lambda>t. op_key t \<noteq> key) (timers s)"
    by (auto intro: filter_cong)
  with Some k show ?thesis by (simp add: scheduleOp_def Let_def clearTimeout_def)
qed

lemma debounce_keys_scheduleOp:
  assumes inv: "debounce_inv s" "debounce_keys pf cfg s"
  shows "debounce_keys pf cfg (scheduleOp pf cfg type p s)"
proof -
  obtain key where k: "localPathToKey pf (LOCAL_DIR cfg) (Str p) = Inr key"
    using localPathToKey_Str by blast
  show ?thesis
    unfolding scheduleOp_effect [OF inv k] using inv(2) k
    by (fastforce simp: debounce_keys_def)
qed

lemma debounce_keys_advance:
  assumes inv: "debounce_keys pf cfg s"
  shows "debounce_keys pf cfg (advance T s)"
  unfolding debounce_keys_def
proof (intro conjI allI impI ballI)
  fix t assume "t \<in> set (timers (advance T s))"
  with inv show "localPathToKey pf (LOCAL_DIR cfg) (Str (op_path t)) = Inr (op_key t)"
    by (simp add: debounce_keys_def advance_fields(1))
next
  fix key i assume m: "debounceMap (advance T s) key = Some i"
  then have notex: "key \<notin> op_key ` {t \<in> set (timers s). due t \<le> T}"
    and ms: "debounceMap s key = Some i"
    by (auto simp: advance_fields(4) split: if_splits)
  from debounce_keys_armed [OF inv ms]
  obtain t where t: "t \<in> set (timers s)" "timer_id t = i" "op_key t = key"
    by blast
  with notex have "\<not> due t \<le> T" by auto
  with t show "\<exists>t\<in>set (timers (advance T s)). timer_id t = i \<and> op_key t = key"
    by (auto simp: advance_fields(1))
qed

lemma debounce_keys_init: "debounce_keys pf cfg debouncer_init"
  by (simp add: debounce_keys_def debouncer_init_def)

lemma invariants_deliver:
  assumes "debounce_inv s" "debounce_keys pf cfg s"
  shows "debounce_inv (deliver pf cfg tn s)" "debounce_keys pf cfg (deliver pf cfg tn s)"
  using assms
  by (simp_all add: deliver_def on_notification_scheduleOp debounce_inv_advance
                    debounce_inv_scheduleOp debounce_keys_advance debounce_keys_scheduleOp)

lemma timer_tasks_notification:
  "op_type tm = notification_type n \<Longrightarrow> op_path tm = notification_path n
     \<Longrightarrow> timer_tasks tm = [notification_task n]"
  by (cases n) (simp_all add: timer_tasks_def)

text \<open>What the delivery of one notification does to the timers and operations of a key.\<close>

lemma deliver_effect:
  assumes inv: "debounce_inv s" "debounce_keys pf cfg s"
    and k: "localPathToKey pf (LOCAL_DIR cfg) (Str (notification_path n)) = Inr k'"
  shows "pending (deliver pf cfg (t, n) s) key =
           (if k' = key
            then [\<lparr> timer_id = next_timer s, due = max (clock s) t + timeout_delay (DEBOUNCE_MS cfg),
                    op_type = notification_type n, op_path = notification_path n,
                    op_key = key \<rparr>]
            else filter (\<lambda>tm. \<not> due tm \<le> t) (pending s key))"
    and "submitted_for pf cfg key (deliver pf cfg (t, n) s) =
           submitted_for pf cfg key s
           @ concat (map timer_tasks (sort_key due (filter (\<lambda>tm. due tm \<le> t) (pending s key))))"
    and "clock (deliver pf cfg (t, n) s) = max (clock s) t"
proof -
  let ?a = "advance t s"
  have ia: "debounce_inv ?a" "debounce_keys pf cfg ?a"
    using inv by (simp_all add: debounce_inv_advance debounce_keys_advance)
  note e = scheduleOp_effect [OF ia k, of "notification_type n"]
  have d: "deliver pf cfg (t, n) s = scheduleOp pf cfg (notification_type n) (notification_path n) ?a"
    by (simp add: deliver_def on_notification_scheduleOp)
  show "pending (deliver pf cfg (t, n) s) key =
           (if k' = key
            then [\<lparr> timer_id = next_timer s, due = max (clock s) t + timeout_delay (DEBOUNCE_MS cfg),
                    op_type = notification_type n, op_path = notification_path n,
                    op_key = key \<rparr>]
            else filter (\<lambda>tm. \<not> due tm \<le> t) (pending s key))"
  proof (cases "k' = key")
    case True
    then show ?thesis
      unfolding d e by (simp add: pending_def advance_fields(2,3))
  next
    case False
    have "filter (\<lambda>tm. op_key tm = key) (filter (\<lambda>tm. op_key tm \<noteq> k') (timers ?a))
            = filter (\<lambda>tm. op_key tm = key) (timers ?a)"
      using False by (auto intro: filter_cong)
    with False show ?thesis
      unfolding d e using pending_advance [of t s key] by (simp add: pending_def)
  qed
  show "submitted_for pf cfg key (deliver pf cfg (t, n) s) =
           submitted_for pf cfg key s
           @ concat (map timer_tasks (sort_key due (filter (\<lambda>tm. due tm \<le> t) (pending s key))))"
    unfolding d e using submitted_for_advance [OF inv(2), of key t]
    by (simp add: submitted_for_def)
  show "clock (deliver pf cfg (t, n) s) = max (clock s) t"
    unfolding d e by (simp add: advance_fields(3))
qed

lemma burst_tail: "burst w (x # xs) \<Longrightarrow> burst w xs"
  by (cases xs) simp_all

lemma notifications_for_Cons:
  "notifications_for pf cfg key ((t, n) # ns) =
     (if localPathToKey pf (LOCAL_DIR cfg) (Str (notification_path n)) = Inr key
      then (t, n) # notifications_for pf cfg key ns
      else notifications_for pf cfg key ns)"
  by (simp add: notifications_for_def)

lemma notifications_for_subset: "set (notifications_for pf cfg key ns) \<subseteq> set ns"
  by (auto simp: notifications_for_def)

text \<open>
  One delivery keeps the timers of a key in step with its notifications: afterwards they
  are armed for the latest notification of the key, or have expired and handed over its
  operation, after which no notification of the key can follow in a burst.
\<close>

lemma coalesce_step:
  assumes inv: "debounce_inv s" "debounce_keys pf cfg s"
    and ct: "clock s \<le> t"
    and later: "\<forall>x\<in>set ns. t \<le> fst x"
    and armed: "armed_for cfg prev (pending s key)"
    and b: "burst (timeout_delay (DEBOUNCE_MS cfg)) (prev @ notifications_for pf cfg key ((t, n) # ns))"
  shows "\<exists>prev' F.
           armed_for cfg prev' (pending (deliver pf cfg (t, n) s) key)
         \<and> burst (timeout_delay (DEBOUNCE_MS cfg)) (prev' @ notifications_for pf cfg key ns)
         \<and> submitted_for pf cfg key (deliver pf cfg (t, n) s) = submitted_for pf cfg key s @ F
         \<and> F @ final_task (prev' @ notifications_for pf cfg key ns)
             = final_task (prev @ notifications_for pf cfg key ((t, n) # ns))
         \<and> (prev' @ notifications_for pf cfg key ns \<noteq> [] \<longrightarrow>
               last (prev' @ notifications_for pf cfg key ns)
                 = last (prev @ notifications_for pf cfg key ((t, n) # ns)))"
proof -
  let ?D = "timeout_delay (DEBOUNCE_MS cfg)"
  let ?kn = "notifications_for pf cfg key"
  let ?s' = "deliver pf cfg (t, n) s"
  obtain k' where k': "localPathToKey pf (LOCAL_DIR cfg) (Str (notification_path n)) = Inr k'"
    using localPathToKey_Str by blast
  note eff1 = deliver_effect(1) [OF inv k', where t = t and key = key]
  note eff2 = deliver_effect(2) [OF inv k', where t = t and key = key]
  from ct have mx: "max (clock s) t = t" by simp
  show ?thesis
  proof (cases "k' = key")
    case True
    then have kn: "?kn ((t, n) # ns) = (t, n) # ?kn ns"
      using k' by (simp add: notifications_for_Cons)
    have notdue: "filter (\<lambda>tm. due tm \<le> t) (pending s key) = []"
    proof (cases prev)
      case Nil
      with armed show ?thesis by (simp add: armed_for_def)
    next
      case (Cons c others)
      with armed obtain tm where tm: "pending s key = [tm]" "due tm = fst c + ?D" "others = []"
        by (auto simp: armed_for_def)
      from b Cons tm kn have "t - fst c < ?D" by simp
      with tm show ?thesis by simp
    qed
    have a': "armed_for cfg [(t, n)] (pending ?s' key)"
      using True eff1 mx by (simp add: armed_for_def)
    have b': "burst ?D ([(t, n)] @ ?kn ns)"
    proof (cases prev)
      case Nil
      with b kn show ?thesis by simp
    next
      case (Cons c others)
      with armed have "others = []" by (auto simp: armed_for_def)
      with b kn Cons show ?thesis using burst_tail [of ?D c "(t, n) # ?kn ns"]
        by simp
    qed
    have s': "submitted_for pf cfg key ?s' = submitted_for pf cfg key s @ []"
      using eff2 notdue by simp
    have f: "[] @ final_task ([(t, n)] @ ?kn ns) = final_task (prev @ ?kn ((t, n) # ns))"
      by (simp add: final_task_def kn)
    have l: "last ([(t, n)] @ ?kn ns) = last (prev @ ?kn ((t, n) # ns))"
      by (simp add: kn)
    from a' b' s' f l show ?thesis by blast
  next
    case False
    then have kn: "?kn ((t, n) # ns) = ?kn ns"
      using k' by (simp add: notifications_for_Cons)
    show ?thesis
    proof (cases prev)
      case Nil
      with armed have p: "pending s key = []" by (simp add: armed_for_def)
      have a': "armed_for cfg [] (pending ?s' key)"
        using False eff1 p by (simp add: armed_for_def)
      have s': "submitted_for pf cfg key ?s' = submitted_for pf cfg key s @ []"
        using eff2 p by simp
      from b Nil kn have b': "burst ?D ([] @ ?kn ns)" by simp
      have f: "[] @ final_task ([] @ ?kn ns) = final_task (prev @ ?kn ((t, n) # ns))"
        by (simp add: kn Nil)
      have l: "last ([] @ ?kn ns) = last (prev @ ?kn ((t, n) # ns))"
        by (simp add: kn Nil)
      from a' b' s' f l show ?thesis by blast
    next
      case (Cons c others)
      with armed obtain tm where tm: "pending s key = [tm]" "due tm = fst c + ?D" "others = []"
          "op_type tm = notification_type (snd c)" "op_path tm = notification_path (snd c)"
        by (auto simp: armed_for_def)
      show ?thesis
      proof (cases "t < fst c + ?D")
        case True
        with tm have p': "pending ?s' key = [tm]"
          using False eff1 by simp
        have a': "armed_for cfg prev (pending ?s' key)"
          using p' tm Cons by (simp add: armed_for_def)
        have s': "submitted_for pf cfg key ?s' = submitted_for pf cfg key s @ []"
          using eff2 tm True by simp
        from b kn have b': "burst ?D (prev @ ?kn ns)" by simp
        have f: "[] @ final_task (prev @ ?kn ns) = final_task (prev @ ?kn ((t, n) # ns))"
          by (simp add: kn)
        have l: "last (prev @ ?kn ns) = last (prev @ ?kn ((t, n) # ns))"
          by (simp add: kn)
        from a' b' s' f l show ?thesis by blast
      next
        case late: False
        have none: "?kn ns = []"
        proof (rule ccontr)
          assume "?kn ns \<noteq> []"
          then obtain y ys where y: "?kn ns = y # ys" by (cases "?kn ns") auto
          then have "y \<in> set ns" using notifications_for_subset [of pf cfg key ns] by auto
          with later have "t \<le> fst y" by simp
          moreover from b kn y Cons tm have "fst y - fst c < ?D" by simp
          ultimately show False using late by simp
        qed
        from tm late have p': "pending ?s' key = []"
          using False eff1 by simp
        have a': "armed_for cfg [] (pending ?s' key)"
          using p' by (simp add: armed_for_def)
        have s': "submitted_for pf cfg key ?s'
                    = submitted_for pf cfg key s @ [notification_task (snd c)]"
          using eff2 tm late by (simp add: timer_tasks_notification)
        have b': "burst ?D ([] @ ?kn ns)" by (simp add: none)
        have f: "[notification_task (snd c)] @ final_task ([] @ ?kn ns)
                   = final_task (prev @ ?kn ((t, n) # ns))"
          by (simp add: kn none Cons tm final_task_def)
        have l: "[] @ ?kn ns \<noteq> [] \<longrightarrow> last ([] @ ?kn ns) = last (prev @ ?kn ((t, n) # ns))"
          by (simp add: none)
        from a' b' s' f l show ?thesis by blast
      qed
    qed
  qed
qed

lemma final_task_Nil_iff: "final_task xs = [] \<longleftrightarrow> xs = []"
  by (simp add: final_task_def)

lemma deliver_all_Cons:
  "deliver_all pf cfg (tn # ns) s = deliver_all pf cfg ns (deliver pf cfg tn s)"
  by (simp add: deliver_all_def)

text \<open>
  Any sequence of notifications in the order of their times, in which those of one key
  form a burst, leads to the one operation of the last of them, whatever the
  notifications of other keys in between.
\<close>

lemma coalesce:
  assumes "debounce_inv s" and "debounce_keys pf cfg s"
    and "sorted (map fst ns)" and "\<forall>tn\<in>set ns. clock s \<le> fst tn"
    and "armed_for cfg prev (pending s key)"
    and "burst (timeout_delay (DEBOUNCE_MS cfg)) (prev @ notifications_for pf cfg key ns)"
    and "prev @ notifications_for pf cfg key ns \<noteq> [] \<longrightarrow>
           fst (last (prev @ notifications_for pf cfg key ns)) + timeout_delay (DEBOUNCE_MS cfg) \<le> T"
  shows "submitted_for pf cfg key (advance T (deliver_all pf cfg ns s))
           = submitted_for pf cfg key s @ final_task (prev @ notifications_for pf cfg key ns)
       \<and> pending (advance T (deliver_all pf cfg ns s)) key = []"
  using assms
proof (induction ns arbitrary: s prev)
  case Nil
  have kn: "notifications_for pf cfg key [] = []" by (simp add: notifications_for_def)
  show ?case
  proof (cases prev)
    case Nil
    with Nil.prems(5) have "pending s key = []" by (simp add: armed_for_def)
    with Nil show ?thesis
      by (simp add: deliver_all_def kn submitted_for_advance [OF Nil.prems(2)] pending_advance
                    final_task_def)
  next
    case (Cons c others)
    with Nil.prems(5) obtain tm where tm: "pending s key = [tm]" "due tm = fst c + timeout_delay (DEBOUNCE_MS cfg)"
        "others = []" "op_type tm = notification_type (snd c)"
        "op_path tm = notification_path (snd c)"
      by (auto simp: armed_for_def)
    from Nil.prems(7) Cons tm have "due tm \<le> T" by (simp add: kn)
    with tm Cons show ?thesis
      by (simp add: deliver_all_def kn submitted_for_advance [OF Nil.prems(2)] pending_advance
                    final_task_def timer_tasks_notification)
  qed
next
  case (Cons tn ns)
  obtain t n where tn: "tn = (t, n)" by (cases tn)
  let ?s' = "deliver pf cfg (t, n) s"
  let ?kn = "notifications_for pf cfg key"
  from Cons.prems(4) tn have ct: "clock s \<le> t" by simp
  from Cons.prems(3) tn have later: "\<forall>x\<in>set ns. t \<le> fst x" and srt: "sorted (map fst ns)"
    by auto
  obtain k' where k': "localPathToKey pf (LOCAL_DIR cfg) (Str (notification_path n)) = Inr k'"
    using localPathToKey_Str by blast
  have "clock ?s' = t"
    using deliver_effect(3) [OF Cons.prems(1,2) k', of t] ct by simp
  with later have cl: "\<forall>x\<in>set ns. clock ?s' \<le> fst x" by simp
  note inv' = invariants_deliver [OF Cons.prems(1,2), of "(t, n)"]
  from coalesce_step [OF Cons.prems(1,2) ct later Cons.prems(5)] Cons.prems(6) tn
  obtain prev' F where
    a': "armed_for cfg prev' (pending ?s' key)" and
    b': "burst (timeout_delay (DEBOUNCE_MS cfg)) (prev' @ ?kn ns)" and
    s': "submitted_for pf cfg key ?s' = submitted_for pf cfg key s @ F" and
    f: "F @ final_task (prev' @ ?kn ns) = final_task (prev @ ?kn ((t, n) # ns))" and
    l: "prev' @ ?kn ns \<noteq> [] \<longrightarrow> last (prev' @ ?kn ns) = last (prev @ ?kn ((t, n) # ns))"
    by blast
  have T': "prev' @ ?kn ns \<noteq> [] \<longrightarrow> fst (last (prev' @ ?kn ns)) + timeout_delay (DEBOUNCE_MS cfg) \<le> T"
  proof
    assume ne: "prev' @ ?kn ns \<noteq> []"
    then have "final_task (prev' @ ?kn ns) \<noteq> []" by (simp add: final_task_Nil_iff)
    with f have "final_task (prev @ ?kn ((t, n) # ns)) \<noteq> []" by (metis append_is_Nil_conv)
    then have "prev @ ?kn ((t, n) # ns) \<noteq> []" by (simp add: final_task_Nil_iff)
    with Cons.prems(7) tn l ne show "fst (last (prev' @ ?kn ns)) + timeout_delay (DEBOUNCE_MS cfg) \<le> T"
      by simp
  qed
  from Cons.IH [OF inv' srt cl a' b' T'] s' f tn show ?case
    by (simp add: deliver_all_Cons)
qed

lemma no_pending_no_record:
  assumes "debounce_keys pf cfg s" and "pending s key = []"
  shows "debounceMap s key = None"
proof (rule ccontr)
  assume "debounceMap s key \<noteq> None"
  then obtain i where "debounceMap s key = Some i" by auto
  from debounce_keys_armed [OF assms(1) this] assms(2) show False
    by (auto simp: pending_def filter_empty_conv)
qed

section \<open>Event debouncer: properties\<close>

text \<open>
  Claim C1, as stated, fails for a window that Node's timer does not keep. With
  \<open>DEBOUNCE_MS = 2147483648\<close> every timer is due after 1 millisecond, so two changes and
  a removal of one file at 0, 10 and 20 milliseconds, each far less than \<open>DEBOUNCE_MS\<close>
  after the one before, hand three operations to the limiter.
\<close>

theorem oversized_window_not_coalesced:
  "burst (DEBOUNCE_MS (default_config \<lparr> DEBOUNCE_MS := 2147483648 \<rparr>))
     [(0, Change ''pdf/a.pdf''), (10, Change ''pdf/a.pdf''), (20, Unlink ''pdf/a.pdf'')]
   \<and> submitted
        (advance (20 + 2147483648)
           (deliver_all (posix home) (default_config \<lparr> DEBOUNCE_MS := 2147483648 \<rparr>)
              [(0, Change ''pdf/a.pdf''), (10, Change ''pdf/a.pdf''), (20, Unlink ''pdf/a.pdf'')]
              debouncer_init))
       = [Upload ''pdf/a.pdf'', Upload ''pdf/a.pdf'', Delete ''pdf/a.pdf'']"
proof -
  have k: "localPathToKey (posix home) ''./pdf'' (Str ''pdf/a.pdf'') = Inr ''a.pdf''"
    by code_simp
  show ?thesis
    by (simp add: default_config_def deliver_all_def deliver_def scheduleOp_def advance_def
                  timer_callback_def clearTimeout_def timeout_delay_def debouncer_init_def
                  k Let_def)
qed

text \<open>
  Claim C1, amended. The window of the debouncer is the delay its timers really have:
  \<open>DEBOUNCE_MS\<close> when that is between 1 and 2147483647, and 1 millisecond otherwise. Take
  any state the debouncer can be in, after earlier notifications and the passing of time,
  with nothing pending for a key; and then notifications in the order of their times,
  among which those of that key are a burst: at least one, each less than the window
  after the one before. Once the window after the last of them has passed, exactly one
  more operation has been handed to the limiter for that key, with the kind and the path
  of the last notification of the burst, whatever happened to other keys in between; no
  timer is pending for the key and its record in \<open>debounceMap\<close> is cleared, as it is
  whenever a timer fires. And at every instant of every sequence of notifications, at
  most one operation is pending for any key.
\<close>

theorem debounce_coalescing:
  assumes "s = advance U (deliver_all pf cfg earlier debouncer_init)"
    and "pending s key = []"
    and "sorted (map fst ns)" and "\<forall>tn\<in>set ns. clock s \<le> fst tn"
    and "notifications_for pf cfg key ns \<noteq> []"
    and "burst (timeout_delay (DEBOUNCE_MS cfg)) (notifications_for pf cfg key ns)"
    and "fst (last (notifications_for pf cfg key ns)) + timeout_delay (DEBOUNCE_MS cfg) \<le> T"
  shows "submitted_for pf cfg key (advance T (deliver_all pf cfg ns s))
           = submitted_for pf cfg key s
             @ [notification_task (snd (last (notifications_for pf cfg key ns)))]
       \<and> pending (advance T (deliver_all pf cfg ns s)) key = []
       \<and> debounceMap (advance T (deliver_all pf cfg ns s)) key = None
       \<and> (\<forall>t s'. debounceMap (timer_callback t s') (op_key t) = None)
       \<and> (\<forall>ms V k. length (pending (advance V (deliver_all pf cfg ms debouncer_init)) k) \<le> 1)"
proof -
  let ?end = "advance T (deliver_all pf cfg ns s)"
  have reach: "debounce_inv (deliver_all pf cfg ms s') \<and> debounce_keys pf cfg (deliver_all pf cfg ms s')"
    if "debounce_inv s'" "debounce_keys pf cfg s'" for s' ms
    using that
    by (induction ms arbitrary: s') (simp_all add: deliver_all_def invariants_deliver)
  have inv: "debounce_inv (advance V (deliver_all pf cfg ms debouncer_init))"
    "debounce_keys pf cfg (advance V (deliver_all pf cfg ms debouncer_init))" for V ms
    using reach [OF debounce_inv_init debounce_keys_init, of ms]
    by (simp_all add: debounce_inv_advance debounce_keys_advance)
  have i: "debounce_inv s" "debounce_keys pf cfg s"
    unfolding assms(1) by (rule inv)+
  have a: "armed_for cfg [] (pending s key)"
    using assms(2) by (simp add: armed_for_def)
  have "submitted_for pf cfg key ?end
          = submitted_for pf cfg key s @ final_task ([] @ notifications_for pf cfg key ns)
        \<and> pending ?end key = []"
    using assms(6,7) by (intro coalesce [OF i assms(3,4) a]) simp_all
  then have 1: "submitted_for pf cfg key ?end
                  = submitted_for pf cfg key s
                    @ [notification_task (snd (last (notifications_for pf cfg key ns)))]"
    and 2: "pending ?end key = []"
    using assms(5) by (simp_all add: final_task_def)
  have "debounce_keys pf cfg ?end"
    using reach [OF i, of ns] by (simp add: debounce_keys_advance)
  then have 3: "debounceMap ?end key = None"
    using 2 by (rule no_pending_no_record)
  have 4: "\<forall>t s'. debounceMap (timer_callback t s') (op_key t) = None"
    by (simp add: timer_callback_tasks)
  have 5: "\<forall>ms V k. length (pending (advance V (deliver_all pf cfg ms debouncer_init)) k) \<le> 1"
    using debounce_inv_pending [OF inv(1)] by blast
  from 1 2 3 4 5 show ?thesis by blast
qed

text \<open>
  The theorem at the example of the spec, with a notification of another key in between:
  at the start of the watcher, two changes and a removal of \<^verbatim>\<open>pdf/a.pdf\<close> at 0, 10 and
  20 milliseconds with a window of 500 lead, at 520 milliseconds, to the one operation
  that deletes it.
\<close>

theorem debounce_coalescing_witness:
  "pending (advance 0 (deliver_all (posix home) default_config [] debouncer_init)) ''a.pdf'' = []
   \<and> sorted (map fst [(0::int, Change ''pdf/a.pdf''), (10, Change ''pdf/a.pdf''),
                      (15, Add ''pdf/b.pdf''), (20, Unlink ''pdf/a.pdf'')])
   \<and> notifications_for (posix home) default_config ''a.pdf''
        [(0, Change ''pdf/a.pdf''), (10, Change ''pdf/a.pdf''),
         (15, Add ''pdf/b.pdf''), (20, Unlink ''pdf/a.pdf'')]
       = [(0, Change ''pdf/a.pdf''), (10, Change ''pdf/a.pdf''), (20, Unlink ''pdf/a.pdf'')]
   \<and> burst (timeout_delay (DEBOUNCE_MS default_config))
        [(0, Change ''pdf/a.pdf''), (10, Change ''pdf/a.pdf''), (20, Unlink ''pdf/a.pdf'')]
   \<and> timeout_delay (DEBOUNCE_MS default_config) = 500
   \<and> 20 + timeout_delay (DEBOUNCE_MS default_config) \<le> 520
   \<and> submitted_for (posix home) default_config ''a.pdf''
        (advance 520 (deliver_all (posix home) default_config
           [(0, Change ''pdf/a.pdf''), (10, Change ''pdf/a.pdf''),
            (15, Add ''pdf/b.pdf''), (20, Unlink ''pdf/a.pdf'')]
           (advance 0 (deliver_all (posix home) default_config [] debouncer_init))))
       = [Delete ''pdf/a.pdf'']
   \<and> debounceMap
        (advance 520 (deliver_all (posix home) default_config
           [(0, Change ''pdf/a.pdf''), (10, Change ''pdf/a.pdf''),
            (15, Add ''pdf/b.pdf''), (20, Unlink ''pdf/a.pdf'')]
           (advance 0 (deliver_all (posix home) default_config [] debouncer_init)))) ''a.pdf''
       = None"
proof -
  let ?ns = "[(0, Change ''pdf/a.pdf''), (10, Change ''pdf/a.pdf''),
              (15, Add ''pdf/b.pdf''), (20, Unlink ''pdf/a.pdf'')] :: (int \<times> notification) list"
  let ?s = "advance 0 (deliver_all (posix home) default_config [] debouncer_init)"
  have e: "?s = debouncer_init"
    by (simp add: deliver_all_def advance_def debouncer_init_def)
  have n: "pending ?s ''a.pdf'' = []"
    unfolding e by (simp add: pending_def debouncer_init_def)
  have s: "sorted (map fst ?ns)" by simp
  have p: "\<forall>tn\<in>set ?ns. clock ?s \<le> fst tn"
    unfolding e by (simp add: debouncer_init_def)
  have k: "notifications_for (posix home) default_config ''a.pdf'' ?ns
             = [(0, Change ''pdf/a.pdf''), (10, Change ''pdf/a.pdf''), (20, Unlink ''pdf/a.pdf'')]"
    by code_simp
  have ne: "notifications_for (posix home) default_config ''a.pdf'' ?ns \<noteq> []"
    by (simp add: k)
  have b: "burst (timeout_delay (DEBOUNCE_MS default_config))
             (notifications_for (posix home) default_config ''a.pdf'' ?ns)"
    unfolding k by (simp add: default_config_def timeout_delay_def)
  have T: "fst (last (notifications_for (posix home) default_config ''a.pdf'' ?ns))
             + timeout_delay (DEBOUNCE_MS default_config) \<le> 520"
    unfolding k by (simp add: default_config_def timeout_delay_def)
  have z: "submitted_for (posix home) default_config ''a.pdf'' ?s = []"
    unfolding e by (simp add: submitted_for_def debouncer_init_def)
  have d: "timeout_delay (DEBOUNCE_MS default_config) = 500"
    by (simp add: default_config_def timeout_delay_def)
  from debounce_coalescing [OF refl n s p ne b T] n s b T d show ?thesis
    unfolding k z by simp
qed

section \<open>Sync engine: auxiliary facts\<close>

lemma run_task_resolves: "snd (run_task pf cfg w t) = Inr ()"
  by (cases t) (simp_all add: run_task_def uploadFile_resolves deleteKey_resolves)

lemma settle_contents:
  assumes "t \<in> set (active L)"
  shows "mset (active (settle t L) @ queue (settle t L)) + {#t#} = mset (active L @ queue L)"
    and "concurrency (settle t L) = concurrency L"
  using assms by (auto simp: settle_def admit_next_def split: list.splits)

text \<open>
  With at least one slot, a limiter whose tasks never reject settles every task it holds:
  the wait for all of them ends, after each has settled once.
\<close>

lemma await_all_resolves:
  assumes "1 \<le> concurrency L"
    and "int (length (active L)) \<le> concurrency L"
    and "queue L \<noteq> [] \<longrightarrow> int (length (active L)) = concurrency L"
    and "waiting = length (active L) + length (queue L)"
  shows "\<exists>order. mset order = mset (active L @ queue L)
           \<and> await_all pf cfg worlds sched L waiting step
               = (map (settled_event pf cfg worlds) order, Resolved)"
  using assms
proof (induction waiting arbitrary: L step)
  case 0
  then show ?case by (simp add: await_all.simps [of pf cfg worlds sched L 0 step])
next
  case (Suc w)
  have ne: "active L \<noteq> []"
  proof
    assume e: "active L = []"
    with Suc.prems(4) have "queue L \<noteq> []" by auto
    with Suc.prems(1,3) e show False by simp
  qed
  define it where "it = active L ! (sched step mod length (active L))"
  from ne have mem: "it \<in> set (active L)" by (simp add: it_def)
  obtain evs where r: "run_task pf cfg (worlds (fst it)) (snd it) = (evs, Inr ())"
    using run_task_resolves [of pf cfg "worlds (fst it)" "snd it"]
    by (cases "run_task pf cfg (worlds (fst it)) (snd it)") auto
  let ?L' = "settle it L"
  note b = limiter_step_bound [OF Suc.prems(2,3), of "Settle it"]
  have c: "concurrency ?L' = concurrency L" by (rule settle_contents(2) [OF mem])
  have m: "mset (active ?L' @ queue ?L') + {#it#} = mset (active L @ queue L)"
    by (rule settle_contents(1) [OF mem])
  then have "size (mset (active ?L' @ queue ?L') + {#it#}) = size (mset (active L @ queue L))"
    by simp
  with Suc.prems(4) have w: "w = length (active ?L') + length (queue ?L')" by simp
  from Suc.IH [of ?L' "step + 1"] Suc.prems(1) b c w
  obtain order where o: "mset order = mset (active ?L' @ queue ?L')"
    "await_all pf cfg worlds sched ?L' w (step + 1)
       = (map (settled_event pf cfg worlds) order, Resolved)"
    by auto
  have "await_all pf cfg worlds sched L (Suc w) step
          = (map (settled_event pf cfg worlds) (it # order), Resolved)"
    using ne r o(2)
    by (simp add: await_all.simps [of pf cfg worlds sched L "Suc w" step] it_def [symmetric]
                  Let_def settled_event_def)
  moreover from o(1) m have "mset (it # order) = mset (active L @ queue L)"
    by (simp add: add.commute)
  ultimately show ?case by blast
qed

text \<open>Scheduling alone: the tasks that have begun are those executing.\<close>

lemma fold_limit_contents:
  assumes "active L = admitted L"
  shows "active (fold limit ts L) = admitted (fold limit ts L)"
  using assms
  by (induction ts arbitrary: L) (auto simp: limit_def Let_def admit_next_def split: list.splits)

lemma limit_concurrency: "concurrency (limit t L) = concurrency L"
  using limiter_step_concurrency [of "Schedule t" L] by simp

lemma fold_limit_concurrency: "concurrency (fold limit ts L) = concurrency L"
  by (induction ts arbitrary: L) (simp_all add: limit_concurrency)

lemma fold_limit_run: "fold limit ts L = limiter_run (map Schedule ts) L"
  by (induction ts arbitrary: L) (simp_all add: limiter_run_def)

lemma scheduled_map_Schedule: "scheduled (map Schedule ts) = ts"
  by (induction ts) (simp_all add: scheduled_def)

text \<open>A successful initial sync: every file found is scheduled, then every task settles.\<close>

lemma initialSync_resolves:
  assumes p: "pLimit n = Inr L"
    and w: "walk pf (LOCAL_DIR cfg) (root_listing fs) [] = Inr files"
  shows "\<exists>order. mset order = mset (initial_tasks files)
           \<and> initialSync pf cfg fs worlds sched L
               = (map (\<lambda>it. Scheduled (fst it) (snd it)) (initial_tasks files)
                    @ map (settled_event pf cfg worlds) order, Resolved)"
proof -
  let ?tasks = "initial_tasks files"
  let ?L' = "fold limit ?tasks L"
  from p have L: "L = \<lparr> concurrency = n, active = [], queue = [], admitted = [] \<rparr>" and n: "1 \<le> n"
    by (auto simp: pLimit_def split: if_splits)
  from n have i: "int (length (active L)) \<le> concurrency L"
    "queue L \<noteq> [] \<longrightarrow> int (length (active L)) = concurrency L"
    by (simp_all add: L)
  note inv = limiter_run_invariant [OF i, of "map Schedule ?tasks", folded fold_limit_run]
  have c: "concurrency ?L' = n"
    by (simp add: fold_limit_concurrency L)
  have a: "active ?L' = admitted ?L'"
    by (rule fold_limit_contents) (simp add: L)
  from inv a have contents: "active ?L' @ queue ?L' = ?tasks"
    by (simp add: L scheduled_map_Schedule)
  then have len: "length ?tasks = length (active ?L') + length (queue ?L')"
    by (metis length_append)
  from inv c n have b: "1 \<le> concurrency ?L'" "int (length (active ?L')) \<le> concurrency ?L'"
    "queue ?L' \<noteq> [] \<longrightarrow> int (length (active ?L')) = concurrency ?L'"
    by (simp_all add: L)
  from await_all_resolves [OF b len, of pf cfg worlds sched 0] contents
  obtain order where "mset order = mset ?tasks"
    "await_all pf cfg worlds sched ?L' (length ?tasks) 0
       = (map (settled_event pf cfg worlds) order, Resolved)"
    by auto
  moreover have "length ?tasks = length files"
    by (simp add: initial_tasks_def)
  ultimately show ?thesis
    using w by (auto simp: initialSync_def Let_def)
qed

lemma main_attaches:
  assumes "R2_ENDPOINT cfg \<noteq> []" "BUCKET cfg \<noteq> []" "ACCESS_KEY cfg \<noteq> []" "SECRET_KEY cfg \<noteq> []"
    and "1 \<le> CONCURRENCY cfg" and "root_readable fs"
    and w: "walk pf (LOCAL_DIR cfg) (root_listing fs) [] = Inr files"
  shows "\<exists>order. mset order = mset (initial_tasks files)
           \<and> main pf cfg fs worlds sched =
               (map (\<lambda>it. Scheduled (fst it) (snd it)) (initial_tasks files)
                  @ map (settled_event pf cfg worlds) order @ [WatcherAttached], debouncer_init)"
proof -
  define L :: "(nat \<times> task) limiter" where
    "L = \<lparr> concurrency = CONCURRENCY cfg, active = [], queue = [], admitted = [] \<rparr>"
  from assms(5) have p: "pLimit (CONCURRENCY cfg) = Inr L"
    by (simp add: pLimit_def L_def)
  from initialSync_resolves [OF p w, of worlds sched]
  obtain order where "mset order = mset (initial_tasks files)"
    "initialSync pf cfg fs worlds sched L
       = (map (\<lambda>it. Scheduled (fst it) (snd it)) (initial_tasks files)
            @ map (settled_event pf cfg worlds) order, Resolved)"
    by blast
  with assms(1-4,6) p show ?thesis
    by (auto simp: main_def)
qed

lemma main_attached_only_if:
  assumes "WatcherAttached \<in> set (fst (main pf cfg fs worlds sched))"
  shows "R2_ENDPOINT cfg \<noteq> [] \<and> BUCKET cfg \<noteq> [] \<and> ACCESS_KEY cfg \<noteq> [] \<and> SECRET_KEY cfg \<noteq> []
       \<and> 1 \<le> CONCURRENCY cfg \<and> root_readable fs
       \<and> (\<exists>files. walk pf (LOCAL_DIR cfg) (root_listing fs) [] = Inr files)"
proof -
  have cfgok: "R2_ENDPOINT cfg \<noteq> [] \<and> BUCKET cfg \<noteq> [] \<and> ACCESS_KEY cfg \<noteq> [] \<and> SECRET_KEY cfg \<noteq> []"
    using assms by (auto simp: main_def split: if_splits)
  have c: "1 \<le> CONCURRENCY cfg"
    using assms cfgok by (auto simp: main_def pLimit_def split: if_splits)
  then obtain L :: "(nat \<times> task) limiter" where p: "pLimit (CONCURRENCY cfg) = Inr L"
    by (simp add: pLimit_def)
  have r: "root_readable fs"
    using assms cfgok p by (auto simp: main_def split: if_splits)
  have "\<not> unreadable (root_listing fs)"
  proof
    assume "unreadable (root_listing fs)"
    from main_unreadable [OF this, of pf cfg worlds sched] assms show False by auto
  qed
  then have "walk pf (LOCAL_DIR cfg) (root_listing fs) []
               = Inr ([] @ walk_spec pf [''.pdf''] (LOCAL_DIR cfg) (root_listing fs))"
    by (rule walk_readable(1))
  with cfgok c r show ?thesis by blast
qed

section \<open>Sync engine: properties\<close>

text \<open>
  Claim C8. If the watcher is attached at all, then the walk has succeeded and what the
  process did before is exactly this: one call of \<open>limit\<close> for each path found by the
  walk, an upload of that path, in the order of the walk; then every one of these tasks
  settled, in some order; and the attachment of the watcher is the next and last event.
  The debouncer is as at the load of the module: no timer was armed and
  \<open>debounceMap\<close> is empty.
\<close>

theorem initial_sync_before_watching:
  "WatcherAttached \<in> set (fst (main pf cfg fs worlds sched)) \<longrightarrow>
     (\<exists>files order.
        walk pf (LOCAL_DIR cfg) (root_listing fs) [] = Inr files
      \<and> map snd (initial_tasks files) = map Upload files
      \<and> mset order = mset (initial_tasks files)
      \<and> main pf cfg fs worlds sched =
          (map (\<lambda>it. Scheduled (fst it) (snd it)) (initial_tasks files)
             @ map (settled_event pf cfg worlds) order @ [WatcherAttached], debouncer_init))"
proof
  assume "WatcherAttached \<in> set (fst (main pf cfg fs worlds sched))"
  from main_attached_only_if [OF this]
  obtain files where ok: "R2_ENDPOINT cfg \<noteq> []" "BUCKET cfg \<noteq> []" "ACCESS_KEY cfg \<noteq> []"
      "SECRET_KEY cfg \<noteq> []" "1 \<le> CONCURRENCY cfg" "root_readable fs"
    and w: "walk pf (LOCAL_DIR cfg) (root_listing fs) [] = Inr files"
    by blast
  from main_attaches [OF ok w, of worlds sched]
  obtain order where "mset order = mset (initial_tasks files)"
    "main pf cfg fs worlds sched =
       (map (\<lambda>it. Scheduled (fst it) (snd it)) (initial_tasks files)
          @ map (settled_event pf cfg worlds) order @ [WatcherAttached], debouncer_init)"
    by blast
  moreover have "map snd (initial_tasks files) = map Upload files"
    by (simp add: initial_tasks_def)
  ultimately show "\<exists>files order.
        walk pf (LOCAL_DIR cfg) (root_listing fs) [] = Inr files
      \<and> map snd (initial_tasks files) = map Upload files
      \<and> mset order = mset (initial_tasks files)
      \<and> main pf cfg fs worlds sched =
          (map (\<lambda>it. Scheduled (fst it) (snd it)) (initial_tasks files)
             @ map (settled_event pf cfg worlds) order @ [WatcherAttached], debouncer_init)"
    using w by blast
qed

text \<open>
  The theorem at a tree with two eligible files, one slot, and a store that rejects every
  call: both uploads are given up, and only then is the watcher attached.
\<close>

theorem initial_sync_before_watching_witness:
  "fst (main (posix home) (default_config \<lparr> CONCURRENCY := 1, RETRY_LIMIT := 1 \<rparr>)
          \<lparr> root_readable = True,
            root_listing = Entries [RegFile ''a.pdf'', Directory ''sub'' (Entries [RegFile ''b.pdf''])] \<rparr>
          (\<lambda>i. rejecting_store) (\<lambda>step. 0))
     = [Scheduled 0 (Upload ''pdf/a.pdf''), Scheduled 1 (Upload ''pdf/sub/b.pdf''),
        Settled 0 (Upload ''pdf/a.pdf'')
          [ReadFile ''pdf/a.pdf'', SendPut ''docs'' ''a.pdf'' ''%PDF'' ''application/pdf'',
           LogUploadError ''a.pdf'' 1, LogFailed ''a.pdf''],
        Settled 1 (Upload ''pdf/sub/b.pdf'')
          [ReadFile ''pdf/sub/b.pdf'', SendPut ''docs'' ''sub/b.pdf'' ''%PDF'' ''application/pdf'',
           LogUploadError ''sub/b.pdf'' 1, LogFailed ''sub/b.pdf''],
        WatcherAttached]
   \<and> (\<exists>files order.
        walk (posix home) ''./pdf''
          (Entries [RegFile ''a.pdf'', Directory ''sub'' (Entries [RegFile ''b.pdf''])]) [] = Inr files
        \<and> mset order = mset (initial_tasks files))"
proof -
  let ?cfg = "default_config \<lparr> CONCURRENCY := 1, RETRY_LIMIT := 1 \<rparr>"
  let ?fs = "\<lparr> root_readable = True,
            root_listing = Entries [RegFile ''a.pdf'', Directory ''sub'' (Entries [RegFile ''b.pdf''])] \<rparr>"
  have m: "fst (main (posix home) ?cfg ?fs (\<lambda>i. rejecting_store) (\<lambda>step. 0))
     = [Scheduled 0 (Upload ''pdf/a.pdf''), Scheduled 1 (Upload ''pdf/sub/b.pdf''),
        Settled 0 (Upload ''pdf/a.pdf'')
          [ReadFile ''pdf/a.pdf'', SendPut ''docs'' ''a.pdf'' ''%PDF'' ''application/pdf'',
           LogUploadError ''a.pdf'' 1, LogFailed ''a.pdf''],
        Settled 1 (Upload ''pdf/sub/b.pdf'')
          [ReadFile ''pdf/sub/b.pdf'', SendPut ''docs'' ''sub/b.pdf'' ''%PDF'' ''application/pdf'',
           LogUploadError ''sub/b.pdf'' 1, LogFailed ''sub/b.pdf''],
        WatcherAttached]"
    by code_simp
  then have a: "WatcherAttached \<in> set (fst (main (posix home) ?cfg ?fs (\<lambda>i. rejecting_store) (\<lambda>step. 0)))"
    by simp
  have l: "LOCAL_DIR ?cfg = ''./pdf''" by (simp add: default_config_def)
  from initial_sync_before_watching [of "posix home" ?cfg ?fs "\<lambda>i. rejecting_store" "\<lambda>step. 0"] a
  have "\<exists>files order.
        walk (posix home) ''./pdf''
          (Entries [RegFile ''a.pdf'', Directory ''sub'' (Entries [RegFile ''b.pdf''])]) [] = Inr files
        \<and> mset order = mset (initial_tasks files)"
    unfolding l by auto
  with m show ?thesis by blast
qed

end
